theory Spec2Isabelle
  imports Main "HOL-Library.Sublist"
begin

section \<open>Python strings\<close>

text \<open>
  A Python \<open>str\<close> is modelled as a \<open>string\<close> whose characters are read as the code
  points below 256. \<open>lower\<close> is \<open>str.lower\<close> on that range: the letters A-Z and the
  upper-case letters of Latin-1 (0xC0-0xDE without the multiplication sign 0xD7) move up
  by 32, every other character stays.
\<close>

definition lower_char :: "char \<Rightarrow> char" where
  "lower_char c =
     (let n = (of_char c :: nat)
      in if (65 \<le> n \<and> n \<le> 90) \<or> (192 \<le> n \<and> n \<le> 222 \<and> n \<noteq> 215)
         then char_of (n + 32) else c)"

definition lower :: "string \<Rightarrow> string" where
  "lower s = map lower_char s"

text \<open>\<open>s.startswith(p)\<close>.\<close>

definition startswith :: "string \<Rightarrow> string \<Rightarrow> bool" where
  "startswith s p = prefix p s"

text \<open>\<open>kw in s\<close> on strings: \<open>kw\<close> occurs in \<open>s\<close> as a contiguous run.\<close>

fun contains :: "string \<Rightarrow> string \<Rightarrow> bool" where
  "contains kw [] = (kw = [])"
| "contains kw (c # cs) = (prefix kw (c # cs) \<or> contains kw cs)"

section \<open>Skill classification\<close>

definition code_keywords :: "string list" where
  "code_keywords = [''def '', ''class '', ''import '', ''function'', ''```'']"

definition doc_keywords :: "string list" where
  "doc_keywords =
     [''paper'', ''report'', ''proposal'', ''design'', ''analysis'',
      ''hypothesis'', ''conclusion'', ''thesis'', ''research'', ''study'']"

text \<open>\<open>DevilAgent._detect_skill\<close>: \<open>any(kw in text.lower() for kw in ...)\<close>, the code keywords
  first.\<close>

definition detect_skill :: "string \<Rightarrow> string" where
  "detect_skill text =
     (if list_ex (\<lambda>kw. contains kw (lower text)) code_keywords then ''code-checker''
      else if list_ex (\<lambda>kw. contains kw (lower text)) doc_keywords then ''logic-auditor''
      else ''general-reviewer'')"

section \<open>Session state\<close>

record SkillMetadata =
  name :: string
  description :: string
  path :: string
  content :: string
  license :: "string option"
  compatibility :: "string option"
  metadata :: "(string \<times> string) list"
  allowed_tools :: "string list"

datatype message = SystemMessage string | HumanMessage string | AIMessage string

record agent =
  skills_metadata :: "SkillMetadata list"
  devil_mode :: bool
  use_web_search :: bool
  active_skill :: "SkillMetadata option"
  history :: "message list"

definition set_mode :: "agent \<Rightarrow> bool \<Rightarrow> agent" where
  "set_mode self devil = self\<lparr>devil_mode := devil, active_skill := None\<rparr>"

definition set_search :: "agent \<Rightarrow> bool \<Rightarrow> agent" where
  "set_search self enabled = self\<lparr>use_web_search := enabled\<rparr>"

definition clear :: "agent \<Rightarrow> agent" where
  "clear self = self\<lparr>history := [], active_skill := None\<rparr>"

section \<open>More of Python's strings and dicts\<close>

text \<open>\<open>sep.join(xs)\<close>.\<close>

fun join :: "string \<Rightarrow> string list \<Rightarrow> string" where
  "join sep [] = []"
| "join sep [x] = x"
| "join sep (x # y # ys) = x @ sep @ join sep (y # ys)"

text \<open>\<open>str(n)\<close> for a natural number: its decimal digits.\<close>

function str_nat :: "nat \<Rightarrow> string" where
  "str_nat n = (if n < 10 then [char_of (48 + n)] else str_nat (n div 10) @ [char_of (48 + n mod 10)])"
  by pat_completeness auto
termination
  by (relation "measure (\<lambda>n. n)") auto

declare str_nat.simps [simp del]

text \<open>\<open>c.isspace()\<close> on the code points below 256, and \<open>s.strip()\<close>.\<close>

definition isspace :: "char \<Rightarrow> bool" where
  "isspace c =
     (let n = (of_char c :: nat)
      in (9 \<le> n \<and> n \<le> 13) \<or> (28 \<le> n \<and> n \<le> 32) \<or> n = 133 \<or> n = 160)"

definition strip :: "string \<Rightarrow> string" where
  "strip s = rev (dropWhile isspace (rev (dropWhile isspace s)))"

text \<open>
  \<open>s.split(sep)\<close>: the pieces between the occurrences of \<open>sep\<close>, found from the left
  without overlap; \<open>piece\<close> is the piece being read. Python raises \<open>ValueError\<close> on an
  empty separator; the two call sites pass the literals \<open>"\n"\<close> and \<open>"Source: "\<close>, and on
  an empty separator the model returns the whole string as its one piece.
\<close>

function split_from :: "string \<Rightarrow> string \<Rightarrow> string \<Rightarrow> string list" where
  "split_from sep piece [] = [piece]"
| "split_from sep piece (c # cs) =
     (if sep \<noteq> [] \<and> prefix sep (c # cs)
      then piece # split_from sep [] (drop (length sep) (c # cs))
      else split_from sep (piece @ [c]) cs)"
  by pat_completeness auto
termination
  by (relation "measure (\<lambda>(sep, piece, s). length s)") auto

definition split :: "string \<Rightarrow> string \<Rightarrow> string list" where
  "split s sep = split_from sep [] s"

text \<open>
  A \<open>dict\<close> with string keys is an association list in insertion order with distinct
  keys. \<open>d[k] = v\<close> replaces the value of a present key where it stands and appends a new
  key at the end; \<open>d.update(other)\<close> and \<open>dict(pairs)\<close> store the pairs one after the
  other; \<open>d.get(k, dflt)\<close> reads.
\<close>

type_synonym 'v dict = "(string \<times> 'v) list"

fun dict_setitem :: "'v dict \<Rightarrow> string \<Rightarrow> 'v \<Rightarrow> 'v dict" where
  "dict_setitem [] k v = [(k, v)]"
| "dict_setitem ((k', v') # d) k v =
     (if k' = k then (k', v) # d else (k', v') # dict_setitem d k v)"

definition dict_update :: "'v dict \<Rightarrow> (string \<times> 'v) list \<Rightarrow> 'v dict" where
  "dict_update d pairs = foldl (\<lambda>acc (k, v). dict_setitem acc k v) d pairs"

definition dict_of :: "(string \<times> 'v) list \<Rightarrow> 'v dict" where
  "dict_of pairs = dict_update [] pairs"

definition dict_get :: "'v dict \<Rightarrow> string \<Rightarrow> 'v \<Rightarrow> 'v" where
  "dict_get d k dflt = (case map_of d k of None \<Rightarrow> dflt | Some v \<Rightarrow> v)"

section \<open>Search\<close>

text \<open>
  What a call of an external service does: it raises an exception (an \<open>Exception\<close>, with
  the text \<open>str(e)\<close>) or returns a value.
\<close>

datatype 'a outcome = Raises string | Returns 'a

text \<open>\<open>_search_web\<close>, given what \<open>DDGS().text(query, ...)\<close> did: each hit is a dict with
  the keys \<open>title\<close>, \<open>body\<close> and \<open>href\<close>.\<close>

definition format_hit :: "string dict \<Rightarrow> string" where
  "format_hit r =
     ''- '' @ dict_get r ''title'' [] @ '': '' @ take 200 (dict_get r ''body'' []) @
     ''...\<newline>  Source: '' @ dict_get r ''href'' []"

fun search_web :: "string dict list outcome \<Rightarrow> string \<Rightarrow> string" where
  "search_web (Raises e) query = ''[Search failed: '' @ e @ '']''"
| "search_web (Returns results) query =
     (if results = [] then ''[No results: '' @ query @ '']''
      else join ''\<newline>'' (map format_hit results))"

text \<open>
  \<open>multi_search\<close>: one \<open>_search_web\<close> per query, gathered in the order of the queries;
  \<open>tool j q\<close> is what the search service does for the \<open>j\<close>-th call of the batch, on
  query \<open>q\<close>.
\<close>

definition multi_search :: "(nat \<Rightarrow> string \<Rightarrow> string dict list outcome) \<Rightarrow> string list \<Rightarrow> string dict" where
  "multi_search tool queries =
     (let results = map (\<lambda>(j, q). search_web (tool j q) q) (enumerate 0 queries)
      in dict_of (zip queries results))"

section \<open>The chat turn\<close>

record SearchValidation =
  is_satisfied :: bool
  reason :: string
  new_queries :: "string list"

record SearchQueries =
  queries :: "string list"

text \<open>
  The world outside the agent. The structured calls return the \<open>parsed\<close> field (\<open>None\<close>
  when parsing failed) or raise; \<open>validate_llm\<close> and \<open>ddgs\<close> take the number of the loop
  iteration, since the services may answer the same request differently each time.
  \<open>astream\<close> gives the contents of the chunks it delivers and, when the stream breaks,
  the exception that ends it. The prompt templates and the warning sign of the offline
  notice hold characters beyond the modelled range and are parameters.
\<close>

record env =
  today :: string
  extract_llm :: "message list \<Rightarrow> SearchQueries option outcome"
  ddgs :: "nat \<Rightarrow> nat \<Rightarrow> string \<Rightarrow> string dict list outcome"
  validate_llm :: "nat \<Rightarrow> message list \<Rightarrow> SearchValidation option outcome"
  astream :: "message list \<Rightarrow> string list \<times> string option"
  NORMAL_PROMPT :: string
  DEVIL_PROMPT :: "SkillMetadata list \<Rightarrow> string \<Rightarrow> string"
  warning_sign :: string

text \<open>What a turn does, in order: the fragments it yields and the services it calls.\<close>

datatype event =
  Yield string
| CallExtract "message list"
| CallMultiSearch "string list"
| CallValidate "message list"
| CallStream "message list"

definition extraction_prompt :: "string \<Rightarrow> string" where
  \<open>extraction_prompt t =
     ''Current date: '' @ t @
     ''\<newline>Extract 1-3 search keywords. For time-sensitive queries (weather/news/stock/events), MUST include "'' @ t @
     ''".\<newline>Examples:\<newline>"What's the weather in Beijing today" -> ["Beijing weather '' @ t @
     ''"]\<newline>"Latest AI news" -> ["AI news '' @ t @
     ''"]\<newline>"Check Tesla stock price" -> ["Tesla stock price '' @ t @
     ''"]\<newline>"What is machine learning" -> ["machine learning tutorial"]''\<close>

definition extraction_messages :: "env \<Rightarrow> string \<Rightarrow> message list" where
  "extraction_messages e user_input =
     [SystemMessage (extraction_prompt (today e)), HumanMessage user_input]"

text \<open>\<open>_extract_search_queries\<close>: no queries when the call raises or parses to \<open>None\<close>.\<close>

definition extract_search_queries :: "env \<Rightarrow> string \<Rightarrow> string list" where
  "extract_search_queries e user_input =
     (case extract_llm e (extraction_messages e user_input) of
        Raises err \<Rightarrow> []
      | Returns None \<Rightarrow> []
      | Returns (Some result) \<Rightarrow> queries result)"

definition validation_prompt :: "string \<Rightarrow> string \<Rightarrow> string dict \<Rightarrow> string" where
  "validation_prompt t user_input results =
     (let results_text = join ''\<newline>'' (map (\<lambda>(q, r). ''['' @ q @ '']: '' @ take 300 r) results)
      in ''Current date: '' @ t @ ''\<newline>User asked: '' @ user_input @
         ''\<newline>Search results:\<newline>'' @ results_text @
         ''\<newline>\<newline>Check: Do results contain info relevant to TODAY ('' @ t @
         '')? If results show old dates, NOT satisfied.'')"

definition validation_messages :: "env \<Rightarrow> string \<Rightarrow> string dict \<Rightarrow> message list" where
  "validation_messages e user_input results =
     [HumanMessage (validation_prompt (today e) user_input results)]"

text \<open>
  \<open>_validate_search\<close>: \<open>None\<close> when the call raises, and also when it parses to \<open>None\<close>,
  since the log line then reads \<open>result.is_satisfied\<close> of \<open>None\<close> inside the \<open>try\<close>.
\<close>

definition validate_search :: "env \<Rightarrow> nat \<Rightarrow> string \<Rightarrow> string dict \<Rightarrow> SearchValidation option" where
  "validate_search e i user_input results =
     (case validate_llm e i (validation_messages e user_input results) of
        Raises err \<Rightarrow> None
      | Returns None \<Rightarrow> None
      | Returns (Some result) \<Rightarrow> Some result)"

record loop_state =
  cur_queries :: "string list"
  all_results :: "string dict"
  iteration_count :: nat
  trace :: "event list"

definition max_iterations :: nat where
  "max_iterations = 3"

text \<open>
  The body of \<open>for i in range(max_iterations)\<close> up to its validation: \<open>None\<close> is the
  \<open>break\<close> on an empty query list, otherwise the state after the search and the
  validation call, with the verdict.
\<close>

definition search_and_validate :: "env \<Rightarrow> string \<Rightarrow> nat \<Rightarrow> loop_state \<Rightarrow> (loop_state \<times> SearchValidation option) option" where
  "search_and_validate e user_input i st =
     (if cur_queries st = [] then None
      else
        let results = multi_search (ddgs e i) (cur_queries st);
            merged = dict_update (all_results st) results
        in Some
          (st\<lparr>all_results := merged,
              iteration_count := i + 1,
              trace := trace st @
                [Yield (''[STAGE]Searching: '' @ join '', '' (cur_queries st) @ ''\<newline>''),
                 CallMultiSearch (cur_queries st),
                 Yield (''[STAGE]Found '' @ str_nat (length results) @ '' results, validating...\<newline>''),
                 CallValidate (validation_messages e user_input merged)]\<rparr>,
           validate_search e i user_input merged))"

text \<open>The rest of the body when the verdict is not satisfied: the new queries.\<close>

definition refine :: "SearchValidation \<Rightarrow> loop_state \<Rightarrow> loop_state" where
  "refine validation st =
     st\<lparr>cur_queries := new_queries validation,
        trace := trace st @
          (if new_queries validation \<noteq> [] then [Yield ''[STAGE]Refining search...\<newline>''] else [])\<rparr>"

text \<open>The loop over the indices of \<open>range(max_iterations)\<close>.\<close>

fun retrieval_loop :: "env \<Rightarrow> string \<Rightarrow> nat list \<Rightarrow> loop_state \<Rightarrow> loop_state" where
  "retrieval_loop e user_input [] st = st"
| "retrieval_loop e user_input (i # rest) st =
     (case search_and_validate e user_input i st of
        None \<Rightarrow> st
      | Some (st', None) \<Rightarrow> st'
      | Some (st', Some validation) \<Rightarrow>
          if is_satisfied validation then st'
          else retrieval_loop e user_input rest (refine validation st'))"

text \<open>The states after each iteration that ran, in order.\<close>

fun loop_states :: "env \<Rightarrow> string \<Rightarrow> nat list \<Rightarrow> loop_state \<Rightarrow> loop_state list" where
  "loop_states e user_input [] st = []"
| "loop_states e user_input (i # rest) st =
     (case search_and_validate e user_input i st of
        None \<Rightarrow> []
      | Some (st', None) \<Rightarrow> [st']
      | Some (st', Some validation) \<Rightarrow>
          if is_satisfied validation then [st']
          else refine validation st' # loop_states e user_input rest (refine validation st'))"

text \<open>The search part of \<open>chat\<close> up to the end of the loop.\<close>

definition initial_loop_state :: "env \<Rightarrow> string \<Rightarrow> loop_state" where
  "initial_loop_state e user_input =
     \<lparr>cur_queries = extract_search_queries e user_input,
      all_results = [],
      iteration_count = 0,
      trace = [Yield ''[STAGE]Extracting search queries...\<newline>'',
               CallExtract (extraction_messages e user_input)]\<rparr>"

definition retrieve :: "env \<Rightarrow> string \<Rightarrow> loop_state" where
  "retrieve e user_input =
     retrieval_loop e user_input [0..<max_iterations] (initial_loop_state e user_input)"

text \<open>The source URLs: the two nested loops over the results and their lines.\<close>

definition collect_line :: "string list \<Rightarrow> string \<Rightarrow> string list" where
  "collect_line search_sources line =
     (if contains ''Source: '' line
      then let url = strip (last (split line ''Source: ''))
           in if url \<noteq> [] \<and> startswith url ''http'' then search_sources @ [url]
              else search_sources
      else search_sources)"

definition extract_sources :: "string dict \<Rightarrow> string list" where
  "extract_sources results =
     foldl (\<lambda>search_sources (q, r). foldl collect_line search_sources (split r ''\<newline>'')) [] results"

text \<open>
  What one line of a result contributes to the source URLs: the stripped text after its
  last \<open>Source: \<close> marker, when the line has the marker and that text is not empty and
  starts with \<open>http\<close>.
\<close>

definition source_of_line :: "string \<Rightarrow> string list" where
  "source_of_line line =
     (let url = strip (last (split line ''Source: ''))
      in if contains ''Source: '' line \<and> url \<noteq> [] \<and> startswith url ''http'' then [url] else [])"

definition search_context_of :: "string \<Rightarrow> string dict \<Rightarrow> string" where
  \<open>search_context_of t results =
     ''\<newline>\<newline><search_results date="'' @ t @ ''">\<newline>'' @
     join ''\<newline>'' (map (\<lambda>(q, r). ''['' @ q @ '']\<newline>'' @ r) results) @
     ''\<newline></search_results>\<newline>\<newline>Today is '' @ t @
     ''. Answer based on search results above. Use markdown formatting. Cite sources with [N](url) format when referencing specific facts.''\<close>

text \<open>Prompt building: \<open>_load_skill_by_name\<close> and \<open>_build_prompt\<close>, which may set the
  active skill.\<close>

definition load_skill_by_name :: "agent \<Rightarrow> string \<Rightarrow> SkillMetadata option" where
  "load_skill_by_name self nm = find (\<lambda>s. name s = nm) (skills_metadata self)"

definition build_prompt :: "env \<Rightarrow> agent \<Rightarrow> string \<Rightarrow> string \<times> agent" where
  "build_prompt e self user_input =
     (if \<not> devil_mode self then (NORMAL_PROMPT e, self)
      else
        let self' =
              (if user_input \<noteq> [] \<and> active_skill self = None
               then self\<lparr>active_skill := load_skill_by_name self (detect_skill user_input)\<rparr>
               else self);
            skill_content =
              (case active_skill self' of Some s \<Rightarrow> content s | None \<Rightarrow> ''No skill loaded'')
        in (DEVIL_PROMPT e (skills_metadata self') skill_content, self'))"

definition offline_notice :: "env \<Rightarrow> string" where
  "offline_notice e =
     ''\<newline>\<newline>---\<newline>'' @ warning_sign e @
     '' *Response generated without web search. Information may not be current.*''"

definition reference_lines :: "string list \<Rightarrow> string list" where
  "reference_lines search_sources =
     map (\<lambda>(i, src). ''['' @ str_nat i @ '']: '' @ src @ ''\<newline>'') (enumerate 1 (take 5 search_sources))"

text \<open>What follows the stream when it completes: the offline notice or the references.\<close>

definition trailer :: "env \<Rightarrow> bool \<Rightarrow> string list \<Rightarrow> string list" where
  "trailer e web search_sources =
     (if \<not> web then [offline_notice e]
      else if search_sources \<noteq> [] then ''\<newline>\<newline>---\<newline>**References:**\<newline>'' # reference_lines search_sources
      else [])"

text \<open>
  \<open>DevilAgent.chat\<close>: the events of the turn and the agent after it. The search phase
  gives the events so far, the search context and the source URLs.
\<close>

definition search_phase :: "env \<Rightarrow> agent \<Rightarrow> string \<Rightarrow> event list \<times> string \<times> string list" where
  "search_phase e self user_input =
     (if use_web_search self then
        let st = retrieve e user_input
        in if all_results st \<noteq> []
           then (trace st @ [Yield ''[STAGE]Generating response...\<newline>''],
                 search_context_of (today e) (all_results st),
                 extract_sources (all_results st))
           else (trace st, [], [])
      else ([Yield ''[STAGE]Generating response (offline)...\<newline>''], [], []))"

definition chat :: "env \<Rightarrow> agent \<Rightarrow> string \<Rightarrow> event list \<times> agent" where
  "chat e self user_input =
     (let self1 = self\<lparr>history := []\<rparr>;
          (events, search_context, search_sources) = search_phase e self1 user_input;
          self2 = self1\<lparr>history := history self1 @ [HumanMessage user_input]\<rparr>;
          (prompt, self3) = build_prompt e self2 user_input;
          messages = SystemMessage (prompt @ search_context) # history self3;
          (chunks, failure) = astream e messages;
          contents = filter (\<lambda>c. c \<noteq> []) chunks;
          full = concat contents;
          streamed = events @ [CallStream messages] @ map Yield contents
      in case failure of
           Some err \<Rightarrow> (streamed @ [Yield (''\<newline>[Error: '' @ err @ '']'')], self3)
         | None \<Rightarrow>
             (streamed @ map Yield (trailer e (use_web_search self3) search_sources),
              self3\<lparr>history := history self3 @ [AIMessage full]\<rparr>))"

section \<open>Observations on a turn\<close>

fun is_multi_search :: "event \<Rightarrow> bool" where
  "is_multi_search (CallMultiSearch qs) = True"
| "is_multi_search ev = False"

fun is_validate :: "event \<Rightarrow> bool" where
  "is_validate (CallValidate ms) = True"
| "is_validate ev = False"

text \<open>The number of search dispatches and of validation calls among the events.\<close>

definition rounds :: "event list \<Rightarrow> nat" where
  "rounds tr = length (filter is_multi_search tr)"

definition validations :: "event list \<Rightarrow> nat" where
  "validations tr = length (filter is_validate tr)"

text \<open>The validation call of an iteration ends the loop: it raises, it parses to \<open>None\<close>,
  or its verdict is satisfied. \<open>results\<close> are the accumulated results it is shown.\<close>

definition validation_stops :: "env \<Rightarrow> nat \<Rightarrow> string \<Rightarrow> string dict \<Rightarrow> bool" where
  "validation_stops e i user_input results =
     (case validate_llm e i (validation_messages e user_input results) of
        Raises err \<Rightarrow> True
      | Returns None \<Rightarrow> True
      | Returns (Some v) \<Rightarrow> is_satisfied v)"

text \<open>The accumulated results after the search of iteration \<open>i\<close> from state \<open>st\<close>.\<close>

definition merged_results :: "env \<Rightarrow> nat \<Rightarrow> loop_state \<Rightarrow> string dict" where
  "merged_results e i st =
     dict_update (all_results st) (multi_search (ddgs e i) (cur_queries st))"

text \<open>The state before the loop followed by the states after each iteration that ran.\<close>

definition turn_states :: "env \<Rightarrow> string \<Rightarrow> nat list \<Rightarrow> loop_state \<Rightarrow> loop_state list" where
  "turn_states e user_input is st = st # loop_states e user_input is st"

text \<open>The keys of a dict, in insertion order.\<close>

definition keys :: "'v dict \<Rightarrow> string list" where
  "keys d = map fst d"

text \<open>The messages that \<open>chat\<close> hands to the stream, and the agent at that point.\<close>

definition stream_messages :: "env \<Rightarrow> agent \<Rightarrow> string \<Rightarrow> message list" where
  "stream_messages e self user_input =
     (let (prompt, self3) = build_prompt e (self\<lparr>history := [HumanMessage user_input]\<rparr>) user_input
      in SystemMessage (prompt @ fst (snd (search_phase e self user_input))) # history self3)"

definition agent_at_stream :: "env \<Rightarrow> agent \<Rightarrow> string \<Rightarrow> agent" where
  "agent_at_stream e self user_input =
     snd (build_prompt e (self\<lparr>history := [HumanMessage user_input]\<rparr>) user_input)"

text \<open>The events of a turn up to the end of the stream.\<close>

definition streamed_events :: "env \<Rightarrow> agent \<Rightarrow> string \<Rightarrow> event list" where
  "streamed_events e self user_input =
     fst (search_phase e self user_input) @ [CallStream (stream_messages e self user_input)] @
     map Yield (filter (\<lambda>c. c \<noteq> []) (fst (astream e (stream_messages e self user_input))))"

text \<open>The calls of a turn that belong to the search.\<close>

fun is_search_call :: "event \<Rightarrow> bool" where
  "is_search_call (CallExtract ms) = True"
| "is_search_call (CallMultiSearch qs) = True"
| "is_search_call (CallValidate ms) = True"
| "is_search_call ev = False"

section \<open>Example worlds\<close>

text \<open>
  A world in which the extraction gives the one query \<open>q\<close>, the search fails in the first
  iteration and finds nothing afterwards, the validator is never satisfied and asks for
  \<open>q\<close> again, and the stream delivers three chunks, the second one empty.
\<close>

definition never_satisfied :: env where
  "never_satisfied =
     \<lparr>today = ''2024-06-01'',
      extract_llm = (\<lambda>ms. Returns (Some \<lparr>queries = [''q'']\<rparr>)),
      ddgs = (\<lambda>i j q. if i = 0 then Raises ''timeout'' else Returns []),
      validate_llm = (\<lambda>i ms. Returns (Some \<lparr>is_satisfied = False, reason = ''old'', new_queries = [''q'']\<rparr>)),
      astream = (\<lambda>ms. ([''Hel'', [], ''lo''], None)),
      NORMAL_PROMPT = ''N'',
      DEVIL_PROMPT = (\<lambda>skills skill_content. ''D'' @ skill_content),
      warning_sign = ''!''\<rparr>"

text \<open>The same world with a validator that is unsatisfied once and then unreachable.\<close>

definition validator_down :: env where
  "validator_down =
     never_satisfied\<lparr>validate_llm := (\<lambda>i ms.
        if i = 0 then Returns (Some \<lparr>is_satisfied = False, reason = ''old'', new_queries = [''r'']\<rparr>)
        else Raises ''connection refused'')\<rparr>"

text \<open>An agent in normal mode with web search on, and the same with web search off.\<close>

definition online_agent :: agent where
  "online_agent =
     \<lparr>skills_metadata = [], devil_mode = False, use_web_search = True,
      active_skill = None, history = [HumanMessage ''earlier'', AIMessage ''turn'']\<rparr>"

definition offline_agent :: agent where
  "offline_agent = online_agent\<lparr>use_web_search := False\<rparr>"

text \<open>The world of \<open>never_satisfied\<close> with a stream that breaks after one chunk.\<close>

definition stream_breaks :: env where
  "stream_breaks = never_satisfied\<lparr>astream := (\<lambda>ms. ([''Hel''], Some ''boom''))\<rparr>"

text \<open>
  A world in which the search finds two hits, the second with an \<open>ftp\<close> address, and the
  validator is satisfied at once.
\<close>

definition with_sources :: env where
  "with_sources =
     never_satisfied
       \<lparr>ddgs := (\<lambda>i j q. Returns
          [[(''title'', ''A''), (''body'', ''alpha''), (''href'', ''https://a.example/1'')],
           [(''title'', ''B''), (''body'', ''beta''), (''href'', ''ftp://b.example/2'')]]),
        validate_llm := (\<lambda>i ms. Returns (Some \<lparr>is_satisfied = True, reason = ''ok'', new_queries = []\<rparr>))\<rparr>"

section \<open>Facts about strings\<close>

lemma contains_iff_sublist: "contains kw s \<longleftrightarrow> sublist kw s"
  by (induction s) (simp_all add: sublist_Cons_right)

lemma contains_lower: "contains kw s \<Longrightarrow> contains (lower kw) (lower s)"
  unfolding contains_iff_sublist lower_def sublist_def by (metis map_append)

lemma contains_trans: "contains a b \<Longrightarrow> contains b c \<Longrightarrow> contains a c"
  unfolding contains_iff_sublist by (rule sublist_order.order_trans)

lemma lower_idem: "lower (lower s) = lower s"
proof -
  have "lower_char (lower_char c) = lower_char c" for c
  proof -
    have "of_char (char_of (n + 32) :: char) = n + 32" if "n \<le> 222" for n :: nat
      using that by simp
    then show ?thesis
      by (auto simp: lower_char_def Let_def)
  qed
  then show ?thesis by (simp add: lower_def)
qed

lemma code_keywords_lower: "kw \<in> set code_keywords \<Longrightarrow> lower kw = kw"
  by (auto simp: code_keywords_def lower_def lower_char_def)

lemma detect_skill_code: "kw \<in> set code_keywords \<Longrightarrow> contains kw (lower text) \<Longrightarrow> detect_skill text = ''code-checker''"
  by (auto simp: detect_skill_def list_ex_iff)

section \<open>Skill classification: theorems\<close>

text \<open>
  C8 (amended). An input containing \<open>def foo():\<close> classifies to \<open>code-checker\<close>. An input
  containing \<open>research proposal\<close> classifies to \<open>logic-auditor\<close> provided its lower-cased
  form contains no code keyword. An input whose lower-cased form contains no code keyword
  and no document keyword classifies to \<open>general-reviewer\<close>.
\<close>

theorem detect_skill_classes:
  "(contains ''def foo():'' text \<longrightarrow> detect_skill text = ''code-checker'') \<and>
   (contains ''research proposal'' text \<and> \<not> list_ex (\<lambda>kw. contains kw (lower text)) code_keywords
      \<longrightarrow> detect_skill text = ''logic-auditor'') \<and>
   (\<not> list_ex (\<lambda>kw. contains kw (lower text)) code_keywords \<and>
    \<not> list_ex (\<lambda>kw. contains kw (lower text)) doc_keywords
      \<longrightarrow> detect_skill text = ''general-reviewer'')"
proof (intro conjI impI)
  assume "contains ''def foo():'' text"
  then have "contains (lower ''def foo():'') (lower text)" by (rule contains_lower)
  moreover have "contains ''def '' (lower ''def foo():'')" by code_simp
  ultimately have "contains ''def '' (lower text)" by (rule contains_trans [rotated])
  moreover have "''def '' \<in> set code_keywords" by code_simp
  ultimately show "detect_skill text = ''code-checker''" by (rule detect_skill_code [rotated])
next
  assume a: "contains ''research proposal'' text \<and> \<not> list_ex (\<lambda>kw. contains kw (lower text)) code_keywords"
  then have "contains ''research proposal'' text" by (rule conjunct1)
  then have "contains (lower ''research proposal'') (lower text)" by (rule contains_lower)
  moreover have "contains ''research'' (lower ''research proposal'')" by code_simp
  ultimately have "contains ''research'' (lower text)" by (rule contains_trans [rotated])
  moreover have "''research'' \<in> set doc_keywords" by code_simp
  ultimately have "list_ex (\<lambda>kw. contains kw (lower text)) doc_keywords"
    unfolding list_ex_iff by (rule bexI)
  with a show "detect_skill text = ''logic-auditor''" by (simp add: detect_skill_def)
next
  assume "\<not> list_ex (\<lambda>kw. contains kw (lower text)) code_keywords \<and>
    \<not> list_ex (\<lambda>kw. contains kw (lower text)) doc_keywords"
  then show "detect_skill text = ''general-reviewer''" by (simp add: detect_skill_def)
qed

theorem detect_skill_classes_witness:
  "contains ''def foo():'' ''def foo(): pass'' \<and>
   detect_skill ''def foo(): pass'' = ''code-checker'' \<and>
   contains ''research proposal'' ''My research proposal'' \<and>
   \<not> list_ex (\<lambda>kw. contains kw (lower ''My research proposal'')) code_keywords \<and>
   detect_skill ''My research proposal'' = ''logic-auditor'' \<and>
   \<not> list_ex (\<lambda>kw. contains kw (lower ''Hello there'')) code_keywords \<and>
   \<not> list_ex (\<lambda>kw. contains kw (lower ''Hello there'')) doc_keywords \<and>
   detect_skill ''Hello there'' = ''general-reviewer''"
proof -
  have 1: "contains ''def foo():'' ''def foo(): pass''" by simp
  have 2: "contains ''research proposal'' ''My research proposal''" by simp
  have 3: "\<not> list_ex (\<lambda>kw. contains kw (lower ''My research proposal'')) code_keywords"
    by code_simp
  have 4: "\<not> list_ex (\<lambda>kw. contains kw (lower ''Hello there'')) code_keywords"
    by code_simp
  have 5: "\<not> list_ex (\<lambda>kw. contains kw (lower ''Hello there'')) doc_keywords"
    by code_simp
  show ?thesis
    using 1 2 3 4 5 detect_skill_classes [of "''def foo(): pass''"]
      detect_skill_classes [of "''My research proposal''"]
      detect_skill_classes [of "''Hello there''"]
    by simp
qed

text \<open>
  C8 as stated fails: an input that contains \<open>research proposal\<close> and also a code keyword
  is classified as \<open>code-checker\<close>, not as \<open>logic-auditor\<close>.
\<close>

theorem detect_skill_research_proposal_counterexample:
  "contains ''research proposal'' ''research proposal: import data'' \<and>
   detect_skill ''research proposal: import data'' \<noteq> ''logic-auditor''"
  by code_simp

text \<open>
  C10. Code keywords take precedence over document keywords: an input whose lower-cased
  form contains a code keyword, or that contains a code keyword in any mix of upper and
  lower case, classifies to \<open>code-checker\<close> whatever else it contains; and the
  classification depends only on the lower-cased input.
\<close>

theorem detect_skill_code_precedence:
  "(kw \<in> set code_keywords \<and> contains kw (lower text) \<longrightarrow> detect_skill text = ''code-checker'') \<and>
   (lower kw \<in> set code_keywords \<and> contains kw text \<longrightarrow> detect_skill text = ''code-checker'') \<and>
   (lower a = lower b \<longrightarrow> detect_skill a = detect_skill b)"
proof (intro conjI impI)
  assume "kw \<in> set code_keywords \<and> contains kw (lower text)"
  then show "detect_skill text = ''code-checker''"
    using detect_skill_code [of kw "text"] by simp
next
  assume a: "lower kw \<in> set code_keywords \<and> contains kw text"
  then have "contains (lower kw) (lower text)" by (simp add: contains_lower)
  with a show "detect_skill text = ''code-checker''"
    using detect_skill_code [of "lower kw" "text"] by simp
next
  assume "lower a = lower b"
  then show "detect_skill a = detect_skill b" by (simp add: detect_skill_def)
qed

theorem detect_skill_code_precedence_witness:
  "''import '' \<in> set code_keywords \<and>
   contains ''import '' (lower ''A Paper: IMPORT os for the analysis'') \<and>
   lower ''IMPORT '' \<in> set code_keywords \<and>
   contains ''IMPORT '' ''A Paper: IMPORT os for the analysis'' \<and>
   contains ''paper'' (lower ''A Paper: IMPORT os for the analysis'') \<and>
   detect_skill ''A Paper: IMPORT os for the analysis'' = ''code-checker'' \<and>
   lower ''Study Notes'' = lower ''STUDY notes'' \<and>
   detect_skill ''Study Notes'' = detect_skill ''STUDY notes''"
proof -
  have 1: "''import '' \<in> set code_keywords" by (simp add: code_keywords_def)
  have 2: "contains ''import '' (lower ''A Paper: IMPORT os for the analysis'')"
    by code_simp
  have 3: "lower ''IMPORT '' \<in> set code_keywords"
    by code_simp
  have 4: "contains ''IMPORT '' ''A Paper: IMPORT os for the analysis''" by simp
  have 5: "contains ''paper'' (lower ''A Paper: IMPORT os for the analysis'')"
    by code_simp
  have 6: "lower ''Study Notes'' = lower ''STUDY notes''"
    by code_simp
  show ?thesis
    using 1 2 3 4 5 6
      detect_skill_code_precedence [of "''import ''" "''A Paper: IMPORT os for the analysis''"
         "''Study Notes''" "''STUDY notes''"]
      detect_skill_code_precedence [of "''IMPORT ''" "''A Paper: IMPORT os for the analysis''"
         "''Study Notes''" "''STUDY notes''"]
    by simp
qed

section \<open>Mode and search toggles: theorems\<close>

text \<open>
  C9. \<open>set_mode d\<close> sets \<open>devil_mode\<close> to \<open>d\<close> and \<open>active_skill\<close> to \<open>None\<close> and leaves
  \<open>history\<close> and \<open>use_web_search\<close> as they were; \<open>set_search e\<close> sets \<open>use_web_search\<close>
  to \<open>e\<close> and leaves \<open>devil_mode\<close>, \<open>active_skill\<close> and \<open>history\<close> as they were; so after
  any non-empty sequence of \<open>set_mode\<close> calls \<open>active_skill\<close> is \<open>None\<close>.
\<close>

theorem set_mode_set_search_frame:
  "devil_mode (set_mode s d) = d \<and> active_skill (set_mode s d) = None \<and>
   history (set_mode s d) = history s \<and> use_web_search (set_mode s d) = use_web_search s \<and>
   skills_metadata (set_mode s d) = skills_metadata s \<and>
   use_web_search (set_search s e) = e \<and> devil_mode (set_search s e) = devil_mode s \<and>
   active_skill (set_search s e) = active_skill s \<and> history (set_search s e) = history s \<and>
   skills_metadata (set_search s e) = skills_metadata s \<and>
   (ds \<noteq> [] \<longrightarrow> active_skill (foldl set_mode s ds) = None \<and>
      devil_mode (foldl set_mode s ds) = last ds \<and>
      history (foldl set_mode s ds) = history s \<and>
      use_web_search (foldl set_mode s ds) = use_web_search s)"
proof -
  have "ds \<noteq> [] \<Longrightarrow> active_skill (foldl set_mode s ds) = None \<and>
      devil_mode (foldl set_mode s ds) = last ds \<and>
      history (foldl set_mode s ds) = history s \<and>
      use_web_search (foldl set_mode s ds) = use_web_search s"
  proof (induction ds rule: rev_induct)
    case Nil
    then show ?case by simp
  next
    case (snoc x xs)
    show ?case
    proof (cases "xs = []")
      case True
      then show ?thesis by (simp add: set_mode_def)
    next
      case False
      with snoc show ?thesis by (simp add: set_mode_def)
    qed
  qed
  then show ?thesis by (simp add: set_mode_def set_search_def)
qed

theorem set_mode_set_search_frame_witness:
  "[True, False, True] \<noteq> [] \<and>
   active_skill (foldl set_mode
      \<lparr>skills_metadata = [], devil_mode = False, use_web_search = True,
       active_skill = Some \<lparr>name = ''code-checker'', description = ''d'', path = ''p'',
          content = ''c'', license = None, compatibility = None, metadata = [],
          allowed_tools = []\<rparr>,
       history = [HumanMessage ''hi'']\<rparr> [True, False, True]) = None"
  using set_mode_set_search_frame [of
      "\<lparr>skills_metadata = [], devil_mode = False, use_web_search = True,
       active_skill = Some \<lparr>name = ''code-checker'', description = ''d'', path = ''p'',
          content = ''c'', license = None, compatibility = None, metadata = [],
          allowed_tools = []\<rparr>,
       history = [HumanMessage ''hi'']\<rparr>" True True "[True, False, True]"]
  by simp

section \<open>Facts about dicts\<close>

lemma map_fst_dict_setitem:
  "map fst (dict_setitem d k v) = (if k \<in> set (map fst d) then map fst d else map fst d @ [k])"
  by (induction d) force+

lemma map_of_dict_setitem: "map_of (dict_setitem d k v) = (map_of d)(k \<mapsto> v)"
  by (induction d) auto

lemma distinct_dict_setitem: "distinct (map fst d) \<Longrightarrow> distinct (map fst (dict_setitem d k v))"
  by (simp add: map_fst_dict_setitem)

lemma dict_setitem_fresh: "k \<notin> set (map fst d) \<Longrightarrow> dict_setitem d k v = d @ [(k, v)]"
  by (induction d) auto

lemma dict_update_Nil: "dict_update d [] = d"
  by (simp add: dict_update_def)

lemma dict_update_Cons: "dict_update d ((k, v) # ps) = dict_update (dict_setitem d k v) ps"
  by (simp add: dict_update_def)

lemma dict_update_snoc: "dict_update d (ps @ [(k, v)]) = dict_setitem (dict_update d ps) k v"
  by (simp add: dict_update_def)

lemma dict_update_fresh:
  "distinct (map fst ps) \<Longrightarrow> set (map fst ps) \<inter> set (map fst d) = {} \<Longrightarrow> dict_update d ps = d @ ps"
proof (induction ps arbitrary: d)
  case Nil
  then show ?case by (simp add: dict_update_Nil)
next
  case (Cons p ps)
  obtain k v where p: "p = (k, v)" by (cases p)
  from Cons.prems have fresh: "k \<notin> set (map fst d)" and d: "distinct (map fst ps)"
    and "set (map fst ps) \<inter> set (map fst (d @ [(k, v)])) = {}"
    by (auto simp: p)
  then have "dict_update (d @ [(k, v)]) ps = (d @ [(k, v)]) @ ps"
    using Cons.IH by blast
  with fresh show ?case by (simp add: p dict_update_Cons dict_setitem_fresh)
qed

lemma dict_of_distinct: "distinct (map fst ps) \<Longrightarrow> dict_of ps = ps"
  using dict_update_fresh [of ps "[]"] by (simp add: dict_of_def)

lemma multi_search_distinct:
  "distinct qs \<Longrightarrow>
   multi_search tool qs = zip qs (map (\<lambda>(j, q). search_web (tool j q) q) (enumerate 0 qs))"
  by (simp add: multi_search_def Let_def dict_of_distinct)

section \<open>Search: theorems\<close>

text \<open>
  C2. For pairwise distinct queries \<open>multi_search\<close> returns one entry per query, in the
  order of the queries. The entry of the \<open>j\<close>-th query is what \<open>_search_web\<close> makes of that
  query's own call, whatever the other calls do: the placeholder
  \<open>[Search failed: <reason>]\<close> when the call raises, and \<open>[No results: <query>]\<close> when
  it returns no hit.
\<close>

theorem multi_search_entries:
  assumes "distinct qs"
  shows "length (multi_search tool qs) = length qs \<and>
         map fst (multi_search tool qs) = qs \<and>
         (\<forall>j < length qs.
            multi_search tool qs ! j = (qs ! j, search_web (tool j (qs ! j)) (qs ! j)) \<and>
            map_of (multi_search tool qs) (qs ! j) = Some (search_web (tool j (qs ! j)) (qs ! j)) \<and>
            (\<forall>err. tool j (qs ! j) = Raises err \<longrightarrow>
               map_of (multi_search tool qs) (qs ! j) = Some (''[Search failed: '' @ err @ '']'')) \<and>
            (tool j (qs ! j) = Returns [] \<longrightarrow>
               map_of (multi_search tool qs) (qs ! j) = Some (''[No results: '' @ qs ! j @ '']'')))"
proof -
  let ?rs = "map (\<lambda>(j, q). search_web (tool j q) q) (enumerate 0 qs)"
  have ms: "multi_search tool qs = zip qs ?rs"
    using assms by (rule multi_search_distinct)
  have len: "length ?rs = length qs" by simp
  have nth: "?rs ! j = search_web (tool j (qs ! j)) (qs ! j)" if "j < length qs" for j
    using that by (simp add: nth_enumerate_eq)
  have look: "map_of (zip qs ?rs) (qs ! j) = Some (search_web (tool j (qs ! j)) (qs ! j))"
    if "j < length qs" for j
  proof -
    from that have "j < length ?rs" by simp
    from map_of_zip_nth [OF len [symmetric] assms this] nth [OF that] show ?thesis by simp
  qed
  show ?thesis
    unfolding ms using len nth look by (simp del: map_map)
qed

theorem multi_search_entries_witness:
  "distinct [''a'', ''b'', ''c''] \<and>
   length (multi_search (\<lambda>j q. if q = ''b'' then Raises ''timeout'' else Returns []) [''a'', ''b'', ''c'']) = 3 \<and>
   map_of (multi_search (\<lambda>j q. if q = ''b'' then Raises ''timeout'' else Returns []) [''a'', ''b'', ''c'']) ''b''
     = Some ''[Search failed: timeout]'' \<and>
   map_of (multi_search (\<lambda>j q. if q = ''b'' then Raises ''timeout'' else Returns []) [''a'', ''b'', ''c'']) ''c''
     = Some ''[No results: c]''"
proof -
  let ?tool = "\<lambda>(j::nat) q. if q = ''b'' then Raises ''timeout'' else Returns ([] :: string dict list)"
  let ?qs = "[''a'', ''b'', ''c'']"
  have d: "distinct ?qs" by simp
  note t = multi_search_entries [OF d, of ?tool]
  from t have len: "length (multi_search ?tool ?qs) = 3" by simp
  from t have all: "\<forall>j<length ?qs. map_of (multi_search ?tool ?qs) (?qs ! j)
     = Some (search_web (?tool j (?qs ! j)) (?qs ! j))"
    by blast
  have "(1::nat) < length ?qs" by simp
  with all have "map_of (multi_search ?tool ?qs) (?qs ! 1) = Some (search_web (?tool 1 (?qs ! 1)) (?qs ! 1))"
    by blast
  then have b: "map_of (multi_search ?tool ?qs) ''b'' = Some ''[Search failed: timeout]''" by simp
  have "(2::nat) < length ?qs" by simp
  with all have "map_of (multi_search ?tool ?qs) (?qs ! 2) = Some (search_web (?tool 2 (?qs ! 2)) (?qs ! 2))"
    by blast
  then have c: "map_of (multi_search ?tool ?qs) ''c'' = Some ''[No results: c]''" by simp
  from d len b c show ?thesis by simp
qed

section \<open>Facts about the retrieval loop\<close>

lemma rounds_append: "rounds (xs @ ys) = rounds xs + rounds ys"
  by (simp add: rounds_def)

lemma validations_append: "validations (xs @ ys) = validations xs + validations ys"
  by (simp add: validations_def)

lemma search_and_validate_None: "search_and_validate e u i st = None \<longleftrightarrow> cur_queries st = []"
  by (simp add: search_and_validate_def Let_def)

lemma search_and_validate_Some:
  assumes "search_and_validate e u i st = Some (st', v)"
  shows "rounds (trace st') = rounds (trace st) + 1"
    and "validations (trace st') = validations (trace st) + 1"
    and "iteration_count st' = i + 1"
    and "cur_queries st' = cur_queries st"
    and "cur_queries st \<noteq> []"
    and "all_results st' = merged_results e i st"
    and "v = validate_search e i u (merged_results e i st)"
  using assms
  by (auto simp: search_and_validate_def merged_results_def Let_def rounds_def validations_def split: if_splits)

lemma refine_simps:
  "rounds (trace (refine v st)) = rounds (trace st)"
  "validations (trace (refine v st)) = validations (trace st)"
  "iteration_count (refine v st) = iteration_count st"
  "all_results (refine v st) = all_results st"
  "cur_queries (refine v st) = new_queries v"
  by (simp_all add: refine_def rounds_def validations_def)

text \<open>The three ways an iteration can go.\<close>

lemma iteration_cases:
  obtains (empty) "cur_queries st = []" "search_and_validate e u i st = None"
  | (stop) st' where "cur_queries st \<noteq> []" "search_and_validate e u i st = Some (st', validate_search e i u (merged_results e i st))"
      "validation_stops e i u (merged_results e i st)"
      "retrieval_loop e u (i # rest) st = st'" "loop_states e u (i # rest) st = [st']"
  | (continue) st' v where "cur_queries st \<noteq> []" "search_and_validate e u i st = Some (st', Some v)"
      "\<not> validation_stops e i u (merged_results e i st)"
      "validate_search e i u (merged_results e i st) = Some v" "\<not> is_satisfied v"
      "retrieval_loop e u (i # rest) st = retrieval_loop e u rest (refine v st')"
      "loop_states e u (i # rest) st = refine v st' # loop_states e u rest (refine v st')"
proof (cases "search_and_validate e u i st")
  case None
  then show ?thesis using empty by (simp add: search_and_validate_None)
next
  case (Some p)
  obtain st' w where p: "p = (st', w)" by (cases p)
  note sv = search_and_validate_Some [OF Some [unfolded p]]
  have sv': "search_and_validate e u i st = Some (st', validate_search e i u (merged_results e i st))"
    using Some p sv(7) by simp
  show ?thesis
  proof (cases "validation_stops e i u (merged_results e i st)")
    case True
    then have "validate_search e i u (merged_results e i st) = None \<or>
      (\<exists>v. validate_search e i u (merged_results e i st) = Some v \<and> is_satisfied v)"
      by (auto simp: validation_stops_def validate_search_def split: outcome.splits option.splits)
    then have "retrieval_loop e u (i # rest) st = st'" "loop_states e u (i # rest) st = [st']"
      using sv' by auto
    with sv(5) sv' True show ?thesis using stop by blast
  next
    case False
    then obtain v where v: "validate_search e i u (merged_results e i st) = Some v" "\<not> is_satisfied v"
      by (auto simp: validation_stops_def validate_search_def split: outcome.splits option.splits)
    then have "retrieval_loop e u (i # rest) st = retrieval_loop e u rest (refine v st')"
      "loop_states e u (i # rest) st = refine v st' # loop_states e u rest (refine v st')"
      using sv' by auto
    with sv(5) sv' v False show ?thesis using continue by simp
  qed
qed

lemma retrieval_loop_bound:
  "rounds (trace (retrieval_loop e u is st)) \<le> rounds (trace st) + length is \<and>
   validations (trace (retrieval_loop e u is st)) \<le> validations (trace st) + length is"
proof (induction "is" arbitrary: st)
  case Nil
  then show ?case by simp
next
  case (Cons i rest)
  show ?case
  proof (cases rule: iteration_cases [where st=st and e=e and u=u and i=i and rest=rest])
    case empty
    then show ?thesis by simp
  next
    case (stop st')
    from search_and_validate_Some(1,2) [OF stop(2)] stop(4) show ?thesis by simp
  next
    case (continue st' v)
    from search_and_validate_Some(1,2) [OF continue(2)] Cons.IH [of "refine v st'"] continue(6)
    show ?thesis by (simp add: refine_simps)
  qed
qed

lemma retrieval_loop_iteration_count:
  "iteration_count (retrieval_loop e u is st) = iteration_count st \<or>
   (\<exists>i \<in> set is. iteration_count (retrieval_loop e u is st) = i + 1)"
proof (induction "is" arbitrary: st)
  case Nil
  then show ?case by simp
next
  case (Cons i rest)
  show ?case
  proof (cases rule: iteration_cases [where st=st and e=e and u=u and i=i and rest=rest])
    case empty
    then show ?thesis by simp
  next
    case (stop st')
    from search_and_validate_Some(3) [OF stop(2)] stop(4) show ?thesis by simp
  next
    case (continue st' v)
    from search_and_validate_Some(3) [OF continue(2)] Cons.IH [of "refine v st'"] continue(6)
    show ?thesis by (auto simp add: refine_simps)
  qed
qed

lemma retrieval_loop_last:
  "retrieval_loop e u is st = last (st # loop_states e u is st)"
proof (induction "is" arbitrary: st)
  case Nil
  then show ?case by simp
next
  case (Cons i rest)
  show ?case
  proof (cases rule: iteration_cases [where st=st and e=e and u=u and i=i and rest=rest])
    case empty
    then show ?thesis by simp
  next
    case (stop st')
    then show ?thesis by simp
  next
    case (continue st' v)
    with Cons.IH [of "refine v st'"] show ?thesis by simp
  qed
qed

lemma loop_states_length: "length (loop_states e u is st) \<le> length is"
proof (induction "is" arbitrary: st)
  case Nil
  then show ?case by simp
next
  case (Cons i rest)
  show ?case
  proof (cases rule: iteration_cases [where st=st and e=e and u=u and i=i and rest=rest])
    case empty
    then show ?thesis by simp
  next
    case (stop st')
    then show ?thesis by simp
  next
    case (continue st' v)
    with Cons.IH [of "refine v st'"] show ?thesis by simp
  qed
qed

text \<open>The states from the \<open>k\<close>-th on are those of the loop run from the \<open>k\<close>-th state.\<close>

lemma loop_states_drop:
  "k < length (loop_states e u is st) \<Longrightarrow>
   drop k (loop_states e u is st) = loop_states e u (drop k is) ((st # loop_states e u is st) ! k)
   \<and> cur_queries ((st # loop_states e u is st) ! k) \<noteq> []"
proof (induction "is" arbitrary: st k)
  case Nil
  then show ?case by simp
next
  case (Cons i rest)
  show ?case
  proof (cases rule: iteration_cases [where st=st and e=e and u=u and i=i and rest=rest])
    case empty
    with Cons.prems show ?thesis by simp
  next
    case (stop st')
    with Cons.prems show ?thesis by simp
  next
    case (continue st' v)
    show ?thesis
    proof (cases k)
      case 0
      with continue show ?thesis by simp
    next
      case (Suc k')
      with Cons.prems continue have "k' < length (loop_states e u rest (refine v st'))" by simp
      from Cons.IH [OF this] Suc continue show ?thesis by simp
    qed
  qed
qed

section \<open>Facts about merging results\<close>

lemma keys_dict_setitem: "prefix (keys d) (keys (dict_setitem d k v))"
  by (simp add: keys_def map_fst_dict_setitem)

lemma keys_dict_update: "prefix (keys d) (keys (dict_update d ps))"
proof (induction ps arbitrary: d)
  case Nil
  then show ?case by (simp add: dict_update_Nil)
next
  case (Cons p ps)
  obtain k v where p: "p = (k, v)" by (cases p)
  have "prefix (keys d) (keys (dict_setitem d k v))" by (rule keys_dict_setitem)
  also have "prefix (keys (dict_setitem d k v)) (keys (dict_update (dict_setitem d k v) ps))"
    by (rule Cons.IH)
  finally show ?case by (simp add: p dict_update_Cons)
qed

lemma set_keys_dict_update: "set (keys (dict_update d ps)) = set (keys d) \<union> fst ` set ps"
proof (induction ps arbitrary: d)
  case Nil
  then show ?case by (simp add: dict_update_Nil)
next
  case (Cons p ps)
  obtain k v where p: "p = (k, v)" by (cases p)
  have "set (keys (dict_setitem d k v)) = insert k (set (keys d))"
    by (auto simp: keys_def map_fst_dict_setitem)
  with Cons.IH [of "dict_setitem d k v"] show ?case
    by (simp add: p dict_update_Cons)
qed

lemma distinct_dict_update: "distinct (keys d) \<Longrightarrow> distinct (keys (dict_update d ps))"
proof (induction ps arbitrary: d)
  case Nil
  then show ?case by (simp add: dict_update_Nil)
next
  case (Cons p ps)
  obtain k v where p: "p = (k, v)" by (cases p)
  from Cons.prems have "distinct (keys (dict_setitem d k v))"
    unfolding keys_def by (rule distinct_dict_setitem)
  from Cons.IH [OF this] show ?case by (simp add: p dict_update_Cons)
qed

lemma map_of_dict_update_other:
  "key \<notin> fst ` set ps \<Longrightarrow> map_of (dict_update d ps) key = map_of d key"
proof (induction ps arbitrary: d)
  case Nil
  then show ?case by (simp add: dict_update_Nil)
next
  case (Cons p ps)
  obtain k v where p: "p = (k, v)" by (cases p)
  from Cons.prems have "key \<noteq> k" "key \<notin> fst ` set ps" by (auto simp: p)
  with Cons.IH [of "dict_setitem d k v"] show ?case
    by (simp add: p dict_update_Cons map_of_dict_setitem)
qed

lemma map_of_dict_update_new:
  "key \<in> fst ` set ps \<Longrightarrow> map_of (dict_update d ps) key = map_of (dict_update d' ps) key"
proof (induction ps arbitrary: d d')
  case Nil
  then show ?case by simp
next
  case (Cons p ps)
  obtain k v where p: "p = (k, v)" by (cases p)
  show ?case
  proof (cases "key \<in> fst ` set ps")
    case True
    from Cons.IH [OF True] show ?thesis by (simp add: p dict_update_Cons)
  next
    case False
    with Cons.prems have "key = k" by (auto simp: p)
    with False show ?thesis
      by (simp add: p dict_update_Cons map_of_dict_update_other map_of_dict_setitem)
  qed
qed

lemma dict_of_idem: "distinct (keys r) \<Longrightarrow> dict_update [] r = r"
  using dict_of_distinct [of r] by (simp add: dict_of_def keys_def)

lemma map_of_merge:
  assumes "distinct (keys r)"
  shows "map_of (dict_update d r) key = (if key \<in> set (keys r) then map_of r key else map_of d key)"
proof (cases "key \<in> set (keys r)")
  case True
  then have "key \<in> fst ` set r" by (simp add: keys_def)
  from map_of_dict_update_new [OF this, of d "[]"] dict_of_idem [OF assms] True
  show ?thesis by simp
next
  case False
  then have "key \<notin> fst ` set r" by (simp add: keys_def)
  from map_of_dict_update_other [OF this, of d] False show ?thesis by simp
qed

lemma keys_multi_search:
  "distinct (keys (multi_search tool qs))" "set (keys (multi_search tool qs)) = set qs"
proof -
  let ?rs = "map (\<lambda>(j, q). search_web (tool j q) q) (enumerate 0 qs)"
  have ms: "multi_search tool qs = dict_update [] (zip qs ?rs)"
    by (simp add: multi_search_def dict_of_def)
  show "distinct (keys (multi_search tool qs))"
    unfolding ms by (rule distinct_dict_update) (simp add: keys_def)
  have "map fst (zip qs ?rs) = qs" by simp
  then have "set (map fst (zip qs ?rs)) = set qs" by (rule arg_cong)
  then have "fst ` set (zip qs ?rs) = set qs" by (simp only: set_map)
  with set_keys_dict_update [of "[]" "zip qs ?rs"]
  show "set (keys (multi_search tool qs)) = set qs"
    unfolding ms by (simp add: keys_def)
qed

lemma map_of_merged_results:
  "map_of (merged_results e i st) key =
     (if key \<in> set (cur_queries st) then map_of (multi_search (ddgs e i) (cur_queries st)) key
      else map_of (all_results st) key)"
  unfolding merged_results_def
  using map_of_merge [OF keys_multi_search(1), of "all_results st" "ddgs e i" "cur_queries st" key]
  by (simp add: keys_multi_search(2))

section \<open>Facts about the turn\<close>

lemma build_prompt_frame:
  "history (snd (build_prompt e self u)) = history self"
  "use_web_search (snd (build_prompt e self u)) = use_web_search self"
  "devil_mode (snd (build_prompt e self u)) = devil_mode self"
  "skills_metadata (snd (build_prompt e self u)) = skills_metadata self"
  by (simp_all add: build_prompt_def Let_def)

lemma search_phase_history: "search_phase e (self\<lparr>history := h\<rparr>) u = search_phase e self u"
  by (simp add: search_phase_def)

lemma stream_messages_eq:
  "stream_messages e self u =
     [SystemMessage (fst (build_prompt e (self\<lparr>history := [HumanMessage u]\<rparr>) u) @
        fst (snd (search_phase e self u))), HumanMessage u]"
  using build_prompt_frame(1) [of e "self\<lparr>history := [HumanMessage u]\<rparr>" u]
  by (simp add: stream_messages_def split_beta)

lemma chat_unfold:
  "chat e self u =
     (case snd (astream e (stream_messages e self u)) of
        Some err \<Rightarrow>
          (streamed_events e self u @ [Yield (''\<newline>[Error: '' @ err @ '']'')],
           agent_at_stream e self u)
      | None \<Rightarrow>
          (streamed_events e self u @
             map Yield (trailer e (use_web_search self) (snd (snd (search_phase e self u)))),
           (agent_at_stream e self u)
             \<lparr>history := [HumanMessage u,
                AIMessage (concat (filter (\<lambda>c. c \<noteq> []) (fst (astream e (stream_messages e self u)))))]\<rparr>))"
proof -
  have h: "history (snd (build_prompt e (self\<lparr>history := [HumanMessage u]\<rparr>) u)) = [HumanMessage u]"
    by (simp add: build_prompt_frame)
  have w: "use_web_search (snd (build_prompt e (self\<lparr>history := [HumanMessage u]\<rparr>) u)) = use_web_search self"
    by (simp add: build_prompt_frame)
  show ?thesis
    by (simp add: chat_def Let_def split_beta search_phase_history stream_messages_def
        streamed_events_def agent_at_stream_def h w split: option.split)
qed

lemma rounds_Yield: "rounds (map Yield xs) = 0"
  by (simp add: rounds_def filter_empty_conv)

lemma validations_Yield: "validations (map Yield xs) = 0"
  by (simp add: validations_def filter_empty_conv)

lemma rounds_initial:
  "rounds (trace (initial_loop_state e u)) = 0" "validations (trace (initial_loop_state e u)) = 0"
  "iteration_count (initial_loop_state e u) = 0" "all_results (initial_loop_state e u) = []"
  "cur_queries (initial_loop_state e u) = extract_search_queries e u"
  by (simp_all add: initial_loop_state_def rounds_def validations_def)

lemma rounds_search_phase:
  "rounds (fst (search_phase e self u)) = (if use_web_search self then rounds (trace (retrieve e u)) else 0)"
  "validations (fst (search_phase e self u)) = (if use_web_search self then validations (trace (retrieve e u)) else 0)"
  by (simp_all add: search_phase_def Let_def rounds_def validations_def)

lemma rounds_chat:
  "rounds (fst (chat e self u)) = rounds (fst (search_phase e self u))"
  "validations (fst (chat e self u)) = validations (fst (search_phase e self u))"
  by (simp_all add: chat_unfold streamed_events_def rounds_append validations_append
      rounds_Yield validations_Yield split: option.split)
     (simp_all add: rounds_def validations_def)

lemma retrieve_bound:
  "rounds (trace (retrieve e u)) \<le> 3" "validations (trace (retrieve e u)) \<le> 3"
  "iteration_count (retrieve e u) \<le> 3"
proof -
  from retrieval_loop_bound [of e u "[0..<max_iterations]" "initial_loop_state e u"]
  show "rounds (trace (retrieve e u)) \<le> 3" "validations (trace (retrieve e u)) \<le> 3"
    by (simp_all add: retrieve_def rounds_initial max_iterations_def)
  from retrieval_loop_iteration_count [of e u "[0..<max_iterations]" "initial_loop_state e u"]
  show "iteration_count (retrieve e u) \<le> 3"
    by (auto simp: retrieve_def rounds_initial max_iterations_def)
qed

lemma merged_results_nonempty: "cur_queries st \<noteq> [] \<Longrightarrow> merged_results e i st \<noteq> []"
proof -
  assume q: "cur_queries st \<noteq> []"
  have "set (keys (multi_search (ddgs e i) (cur_queries st))) = set (cur_queries st)"
    by (rule keys_multi_search(2))
  then have "fst ` set (multi_search (ddgs e i) (cur_queries st)) = set (cur_queries st)"
    by (simp add: keys_def)
  with set_keys_dict_update [of "all_results st" "multi_search (ddgs e i) (cur_queries st)"]
  have "set (keys (merged_results e i st)) = set (keys (all_results st)) \<union> set (cur_queries st)"
    by (simp add: merged_results_def)
  with q have "set (keys (merged_results e i st)) \<noteq> {}" by simp
  then show ?thesis by (auto simp: keys_def)
qed

lemma loop_keys_prefix:
  "prefix (keys (all_results st)) (keys (all_results (retrieval_loop e u is st)))"
proof (induction "is" arbitrary: st)
  case Nil
  then show ?case by simp
next
  case (Cons i rest)
  have m: "prefix (keys (all_results st)) (keys (merged_results e i st))"
    unfolding merged_results_def by (rule keys_dict_update)
  show ?case
  proof (cases rule: iteration_cases [where st=st and e=e and u=u and i=i and rest=rest])
    case empty
    then show ?thesis by simp
  next
    case (stop st')
    from search_and_validate_Some(6) [OF stop(2)] stop(4) m show ?thesis by simp
  next
    case (continue st' v)
    from search_and_validate_Some(6) [OF continue(2)] m
    have "prefix (keys (all_results st)) (keys (all_results (refine v st')))"
      by (simp add: refine_simps)
    also have "prefix (keys (all_results (refine v st')))
        (keys (all_results (retrieval_loop e u rest (refine v st'))))"
      by (rule Cons.IH)
    finally show ?thesis using continue(6) by simp
  qed
qed

lemma loop_never_satisfied:
  assumes never: "\<forall>i ms. \<exists>v. validate_llm e i ms = Returns (Some v) \<and> \<not> is_satisfied v \<and> new_queries v \<noteq> []"
  shows "cur_queries st \<noteq> [] \<Longrightarrow>
     rounds (trace (retrieval_loop e u is st)) = rounds (trace st) + length is \<and>
     validations (trace (retrieval_loop e u is st)) = validations (trace st) + length is \<and>
     (is \<noteq> [] \<longrightarrow> iteration_count (retrieval_loop e u is st) = last is + 1 \<and>
        all_results (retrieval_loop e u is st) \<noteq> [])"
proof (induction "is" arbitrary: st)
  case Nil
  then show ?case by simp
next
  case (Cons i rest)
  have ns: "\<not> validation_stops e i u r" for r
  proof -
    from never obtain v where "validate_llm e i (validation_messages e u r) = Returns (Some v)"
      "\<not> is_satisfied v" by blast
    then show ?thesis by (simp add: validation_stops_def)
  qed
  show ?case
  proof (cases rule: iteration_cases [where st=st and e=e and u=u and i=i and rest=rest])
    case empty
    with Cons.prems show ?thesis by simp
  next
    case (stop st')
    with ns show ?thesis by simp
  next
    case (continue st' v)
    from never obtain v' where v': "validate_llm e i (validation_messages e u (merged_results e i st)) = Returns (Some v')"
      "new_queries v' \<noteq> []" by blast
    with continue(4) have nq: "new_queries v \<noteq> []" by (simp add: validate_search_def)
    then have q: "cur_queries (refine v st') \<noteq> []" by (simp add: refine_simps)
    note sv = search_and_validate_Some [OF continue(2)]
    note ih = Cons.IH [OF q]
    have ne: "all_results (retrieval_loop e u rest (refine v st')) \<noteq> []"
    proof -
      have "all_results (refine v st') \<noteq> []"
        using sv(6) merged_results_nonempty [OF continue(1), of e i] by (simp add: refine_simps)
      with loop_keys_prefix [of "refine v st'" e u rest] show ?thesis
        by (auto simp: keys_def)
    qed
    have ic: "iteration_count (retrieval_loop e u rest (refine v st')) = last (i # rest) + 1"
    proof (cases "rest = []")
      case True
      with sv(3) show ?thesis by (simp add: refine_simps)
    next
      case False
      with ih show ?thesis by simp
    qed
    from ih sv(1,2) ne ic continue(6) show ?thesis by (simp add: refine_simps)
  qed
qed

lemma turn_states_step:
  assumes "Suc k < length (turn_states e u ixs st)"
  shows "all_results (turn_states e u ixs st ! Suc k) =
           merged_results e (ixs ! k) (turn_states e u ixs st ! k)"
proof -
  let ?L = "loop_states e u ixs st"
  let ?S = "st # ?L"
  from assms have k: "k < length ?L" by (simp add: turn_states_def)
  with loop_states_length [of e u ixs st] have "k < length ixs" by simp
  then have dk: "drop k ixs = ixs ! k # drop (Suc k) ixs" by (simp add: Cons_nth_drop_Suc)
  from loop_states_drop [OF k]
  have d: "drop k ?L = loop_states e u (drop k ixs) (?S ! k)" and q: "cur_queries (?S ! k) \<noteq> []"
    by simp_all
  have "all_results (hd (loop_states e u (ixs ! k # drop (Suc k) ixs) (?S ! k))) =
      merged_results e (ixs ! k) (?S ! k)"
  proof (cases rule: iteration_cases [where st="?S ! k" and e=e and u=u and i="ixs ! k" and rest="drop (Suc k) ixs"])
    case empty
    with q show ?thesis by simp
  next
    case (stop st')
    from search_and_validate_Some(6) [OF stop(2)] stop(5) show ?thesis by simp
  next
    case (continue st' v)
    from search_and_validate_Some(6) [OF continue(2)] continue(7) show ?thesis
      by (simp add: refine_simps)
  qed
  moreover from k have "hd (drop k ?L) = ?L ! k" by (simp add: hd_drop_conv_nth)
  ultimately show ?thesis using d dk by (simp add: turn_states_def)
qed

lemma turn_states_keys_step:
  assumes "Suc k < length (turn_states e u ixs st)"
  shows "prefix (keys (all_results (turn_states e u ixs st ! k)))
           (keys (all_results (turn_states e u ixs st ! Suc k)))"
  unfolding turn_states_step [OF assms] merged_results_def by (rule keys_dict_update)

lemma turn_states_keys_mono:
  "i \<le> j \<Longrightarrow> j < length (turn_states e u ixs st) \<Longrightarrow>
   prefix (keys (all_results (turn_states e u ixs st ! i)))
     (keys (all_results (turn_states e u ixs st ! j)))"
proof (induction j)
  case 0
  then show ?case by simp
next
  case (Suc j)
  show ?case
  proof (cases "i = Suc j")
    case True
    then show ?thesis by simp
  next
    case False
    with Suc.prems have "i \<le> j" "j < length (turn_states e u ixs st)" by simp_all
    then have "prefix (keys (all_results (turn_states e u ixs st ! i)))
        (keys (all_results (turn_states e u ixs st ! j)))"
      by (rule Suc.IH)
    also have "prefix (keys (all_results (turn_states e u ixs st ! j)))
        (keys (all_results (turn_states e u ixs st ! Suc j)))"
      using Suc.prems(2) by (rule turn_states_keys_step)
    finally show ?thesis .
  qed
qed

section \<open>The retrieval loop: theorems\<close>

text \<open>
  C1 (amended). Within one turn the keys of the accumulated result map only grow: the
  keys present after an iteration are still present, in the same places, after every
  later iteration, and none is deleted. An iteration leaves the value of every key that
  is not among its queries as it was, and gives every key among its queries the result
  of that iteration's search, also when the key was present before. The loop returns the
  results of the last state.
\<close>

theorem accumulated_results_grow:
  "(i \<le> j \<and> j < length (turn_states e u ixs st) \<longrightarrow>
      prefix (keys (all_results (turn_states e u ixs st ! i)))
        (keys (all_results (turn_states e u ixs st ! j))) \<and>
      set (keys (all_results (turn_states e u ixs st ! i)))
        \<subseteq> set (keys (all_results (turn_states e u ixs st ! j)))) \<and>
   (Suc k < length (turn_states e u ixs st) \<longrightarrow>
      map_of (all_results (turn_states e u ixs st ! Suc k)) key =
        (if key \<in> set (cur_queries (turn_states e u ixs st ! k))
         then map_of (multi_search (ddgs e (ixs ! k)) (cur_queries (turn_states e u ixs st ! k))) key
         else map_of (all_results (turn_states e u ixs st ! k)) key)) \<and>
   all_results (retrieve e u) =
     all_results (last (turn_states e u [0..<max_iterations] (initial_loop_state e u)))"
proof (intro conjI impI)
  assume a: "i \<le> j \<and> j < length (turn_states e u ixs st)"
  then show p: "prefix (keys (all_results (turn_states e u ixs st ! i)))
        (keys (all_results (turn_states e u ixs st ! j)))"
    by (simp add: turn_states_keys_mono)
  then show "set (keys (all_results (turn_states e u ixs st ! i)))
        \<subseteq> set (keys (all_results (turn_states e u ixs st ! j)))"
    by (rule set_mono_prefix)
next
  assume "Suc k < length (turn_states e u ixs st)"
  then show "map_of (all_results (turn_states e u ixs st ! Suc k)) key =
        (if key \<in> set (cur_queries (turn_states e u ixs st ! k))
         then map_of (multi_search (ddgs e (ixs ! k)) (cur_queries (turn_states e u ixs st ! k))) key
         else map_of (all_results (turn_states e u ixs st ! k)) key)"
    by (simp only: turn_states_step map_of_merged_results)
next
  show "all_results (retrieve e u) =
     all_results (last (turn_states e u [0..<max_iterations] (initial_loop_state e u)))"
    by (simp only: retrieve_def turn_states_def retrieval_loop_last)
qed

theorem accumulated_results_grow_witness:
  "(1::nat) \<le> 2 \<and>
   2 < length (turn_states never_satisfied ''hi'' [0, 1, 2] (initial_loop_state never_satisfied ''hi'')) \<and>
   set (keys (all_results (turn_states never_satisfied ''hi'' [0, 1, 2] (initial_loop_state never_satisfied ''hi'') ! 1)))
     \<subseteq> set (keys (all_results (turn_states never_satisfied ''hi'' [0, 1, 2] (initial_loop_state never_satisfied ''hi'') ! 2))) \<and>
   map_of (all_results (turn_states never_satisfied ''hi'' [0, 1, 2] (initial_loop_state never_satisfied ''hi'') ! Suc 1)) ''q'' =
     map_of (multi_search (ddgs never_satisfied ([0, 1, 2] ! 1))
       (cur_queries (turn_states never_satisfied ''hi'' [0, 1, 2] (initial_loop_state never_satisfied ''hi'') ! 1))) ''q''"
proof -
  let ?S = "turn_states never_satisfied ''hi'' [0, 1, 2] (initial_loop_state never_satisfied ''hi'')"
  have h1: "(1::nat) \<le> 2 \<and> 2 < length ?S" by code_simp
  have h2: "Suc 1 < length ?S" by code_simp
  have h3: "''q'' \<in> set (cur_queries (?S ! 1))" by code_simp
  note t = accumulated_results_grow [where i=1 and j=2 and k=1 and key="''q''" and e=never_satisfied
      and u="''hi''" and ixs="[0, 1, 2]" and st="initial_loop_state never_satisfied ''hi''"]
  from t h1 have c1: "set (keys (all_results (?S ! 1))) \<subseteq> set (keys (all_results (?S ! 2)))"
    by simp
  from t h2 have "map_of (all_results (?S ! Suc 1)) ''q'' =
        (if ''q'' \<in> set (cur_queries (?S ! 1))
         then map_of (multi_search (ddgs never_satisfied ([0, 1, 2] ! 1)) (cur_queries (?S ! 1))) ''q''
         else map_of (all_results (?S ! 1)) ''q'')"
    by simp
  with h3 have c2: "map_of (all_results (?S ! Suc 1)) ''q'' =
     map_of (multi_search (ddgs never_satisfied ([0, 1, 2] ! 1)) (cur_queries (?S ! 1))) ''q''"
    by (simp only: if_True)
  from h1 c1 c2 show ?thesis by simp
qed

text \<open>
  C1 as stated fails: when the validator asks for the same query again, the second
  search result replaces the first one.
\<close>

theorem requery_overwrites_counterexample:
  "map_of (all_results (turn_states never_satisfied ''hi'' [0..<max_iterations]
      (initial_loop_state never_satisfied ''hi'') ! 1)) ''q'' = Some ''[Search failed: timeout]'' \<and>
   map_of (all_results (turn_states never_satisfied ''hi'' [0..<max_iterations]
      (initial_loop_state never_satisfied ''hi'') ! 2)) ''q'' = Some ''[No results: q]''"
  by code_simp

lemma CallStream_in_chat: "CallStream (stream_messages e self u) \<in> set (fst (chat e self u))"
  by (simp add: chat_unfold streamed_events_def split: option.split)

text \<open>
  C3. A chat turn dispatches at most 3 searches and makes at most 3 validation calls.
  With web search on, a first query, and a validator that every time answers unsatisfied
  with new queries, the turn runs exactly 3 iterations and then goes on to the stream,
  with the context built from the accumulated results.
\<close>

theorem retrieval_loop_at_most_three:
  "rounds (fst (chat e self u)) \<le> 3 \<and> validations (fst (chat e self u)) \<le> 3 \<and>
   iteration_count (retrieve e u) \<le> 3 \<and>
   (use_web_search self \<and> extract_search_queries e u \<noteq> [] \<and>
    (\<forall>i ms. \<exists>v. validate_llm e i ms = Returns (Some v) \<and> \<not> is_satisfied v \<and> new_queries v \<noteq> [])
    \<longrightarrow>
      rounds (fst (chat e self u)) = 3 \<and> validations (fst (chat e self u)) = 3 \<and>
      iteration_count (retrieve e u) = 3 \<and> all_results (retrieve e u) \<noteq> [] \<and>
      CallStream
        [SystemMessage (fst (build_prompt e (self\<lparr>history := [HumanMessage u]\<rparr>) u) @
           search_context_of (today e) (all_results (retrieve e u))),
         HumanMessage u] \<in> set (fst (chat e self u)))"
proof (intro conjI impI)
  show "rounds (fst (chat e self u)) \<le> 3"
    using retrieve_bound(1) [of e u] by (simp add: rounds_chat rounds_search_phase)
  show "validations (fst (chat e self u)) \<le> 3"
    using retrieve_bound(2) [of e u] by (simp add: rounds_chat rounds_search_phase)
  show "iteration_count (retrieve e u) \<le> 3" by (rule retrieve_bound)
next
  assume a: "use_web_search self \<and> extract_search_queries e u \<noteq> [] \<and>
    (\<forall>i ms. \<exists>v. validate_llm e i ms = Returns (Some v) \<and> \<not> is_satisfied v \<and> new_queries v \<noteq> [])"
  then have never: "\<forall>i ms. \<exists>v. validate_llm e i ms = Returns (Some v) \<and> \<not> is_satisfied v \<and> new_queries v \<noteq> []"
    and web: "use_web_search self" and q: "cur_queries (initial_loop_state e u) \<noteq> []"
    by (simp_all add: rounds_initial)
  from loop_never_satisfied [OF never q, of u "[0..<max_iterations]"]
  have r: "rounds (trace (retrieve e u)) = 3" "validations (trace (retrieve e u)) = 3"
    "iteration_count (retrieve e u) = 3" "all_results (retrieve e u) \<noteq> []"
    by (simp_all add: retrieve_def rounds_initial max_iterations_def)
  from r(1) web show "rounds (fst (chat e self u)) = 3"
    by (simp add: rounds_chat rounds_search_phase)
  from r(2) web show "validations (fst (chat e self u)) = 3"
    by (simp add: rounds_chat rounds_search_phase)
  from r(3) show "iteration_count (retrieve e u) = 3" .
  from r(4) show "all_results (retrieve e u) \<noteq> []" .
  from r(4) web have "fst (snd (search_phase e self u)) = search_context_of (today e) (all_results (retrieve e u))"
    by (simp add: search_phase_def Let_def)
  with CallStream_in_chat [of e self u]
  show "CallStream
        [SystemMessage (fst (build_prompt e (self\<lparr>history := [HumanMessage u]\<rparr>) u) @
           search_context_of (today e) (all_results (retrieve e u))),
         HumanMessage u] \<in> set (fst (chat e self u))"
    by (simp add: stream_messages_eq)
qed

theorem retrieval_loop_at_most_three_witness:
  "use_web_search online_agent \<and> extract_search_queries never_satisfied ''hi'' \<noteq> [] \<and>
   (\<forall>i ms. \<exists>v. validate_llm never_satisfied i ms = Returns (Some v) \<and> \<not> is_satisfied v \<and> new_queries v \<noteq> []) \<and>
   rounds (fst (chat never_satisfied online_agent ''hi'')) = 3 \<and>
   validations (fst (chat never_satisfied online_agent ''hi'')) = 3 \<and>
   iteration_count (retrieve never_satisfied ''hi'') = 3"
proof -
  have h1: "use_web_search online_agent" by (simp add: online_agent_def)
  have h2: "extract_search_queries never_satisfied ''hi'' \<noteq> []" by code_simp
  have h3: "\<forall>i ms. \<exists>v. validate_llm never_satisfied i ms = Returns (Some v) \<and> \<not> is_satisfied v \<and> new_queries v \<noteq> []"
    by (simp add: never_satisfied_def)
  from retrieval_loop_at_most_three [of never_satisfied online_agent "''hi''"] h1 h2 h3
  show ?thesis by simp
qed


text \<open>
  C4. When the validation call of an iteration raises, parses to \<open>None\<close> or returns a
  satisfied verdict, the loop ends with that iteration: the later indices are not run,
  one search and one validation were added, and the results are those accumulated up to
  that search. So if this happens at the \<open>k\<close>-th iteration of a run, the run has exactly
  \<open>k + 1\<close> iterations.
\<close>

theorem validation_stops_loop:
  "(cur_queries st \<noteq> [] \<and> validation_stops e i u (merged_results e i st) \<longrightarrow>
      retrieval_loop e u (i # rest) st = retrieval_loop e u [i] st \<and>
      loop_states e u (i # rest) st = [retrieval_loop e u [i] st] \<and>
      all_results (retrieval_loop e u (i # rest) st) = merged_results e i st \<and>
      rounds (trace (retrieval_loop e u (i # rest) st)) = rounds (trace st) + 1 \<and>
      validations (trace (retrieval_loop e u (i # rest) st)) = validations (trace st) + 1) \<and>
   (k < length (loop_states e u ixs st) \<and>
    validation_stops e (ixs ! k) u (merged_results e (ixs ! k) ((st # loop_states e u ixs st) ! k)) \<longrightarrow>
      length (loop_states e u ixs st) = Suc k \<and>
      retrieval_loop e u ixs st = loop_states e u ixs st ! k \<and>
      all_results (retrieval_loop e u ixs st) = merged_results e (ixs ! k) ((st # loop_states e u ixs st) ! k))"
proof (intro conjI impI)
  assume a: "cur_queries st \<noteq> [] \<and> validation_stops e i u (merged_results e i st)"
  have one: "retrieval_loop e u (i # r) st = fst (the (search_and_validate e u i st)) \<and>
             loop_states e u (i # r) st = [fst (the (search_and_validate e u i st))]" for r
  proof (cases rule: iteration_cases [where st=st and e=e and u=u and i=i and rest=r])
    case empty
    with a show ?thesis by simp
  next
    case (stop st')
    then show ?thesis by simp
  next
    case (continue st' v)
    with a show ?thesis by simp
  qed
  from a have sv: "search_and_validate e u i st =
      Some (fst (the (search_and_validate e u i st)), snd (the (search_and_validate e u i st)))"
    by (simp add: search_and_validate_def Let_def)
  note f = search_and_validate_Some [OF sv]
  from one [of rest] one [of "[]"]
  show "retrieval_loop e u (i # rest) st = retrieval_loop e u [i] st" by simp
  from one [of rest] one [of "[]"]
  show "loop_states e u (i # rest) st = [retrieval_loop e u [i] st]" by simp
  from one [of rest] f(6)
  show "all_results (retrieval_loop e u (i # rest) st) = merged_results e i st" by simp
  from one [of rest] f(1)
  show "rounds (trace (retrieval_loop e u (i # rest) st)) = rounds (trace st) + 1" by simp
  from one [of rest] f(2)
  show "validations (trace (retrieval_loop e u (i # rest) st)) = validations (trace st) + 1" by simp
next
  let ?L = "loop_states e u ixs st"
  let ?S = "st # ?L"
  assume b: "k < length ?L \<and> validation_stops e (ixs ! k) u (merged_results e (ixs ! k) (?S ! k))"
  then have k: "k < length ?L" by simp
  with loop_states_length [of e u ixs st] have kis: "k < length ixs" by simp
  then have dk: "drop k ixs = ixs ! k # drop (Suc k) ixs" by (simp add: Cons_nth_drop_Suc)
  from loop_states_drop [OF k]
  have d: "drop k ?L = loop_states e u (drop k ixs) (?S ! k)" and q: "cur_queries (?S ! k) \<noteq> []"
    by simp_all
  have "\<exists>s. loop_states e u (ixs ! k # drop (Suc k) ixs) (?S ! k) = [s] \<and>
      all_results s = merged_results e (ixs ! k) (?S ! k)"
  proof (cases rule: iteration_cases [where st="?S ! k" and e=e and u=u and i="ixs ! k" and rest="drop (Suc k) ixs"])
    case empty
    with q show ?thesis by simp
  next
    case (stop st')
    from search_and_validate_Some(6) [OF stop(2)] stop(5) show ?thesis by simp
  next
    case (continue st' v)
    with b show ?thesis by simp
  qed
  then obtain s where s: "drop k ?L = [s]" "all_results s = merged_results e (ixs ! k) (?S ! k)"
    using d dk by auto
  from s(1) have "length (drop k ?L) = 1" by simp
  with k show len: "length ?L = Suc k" by simp
  from s(1) k have sk: "?L ! k = s" by (metis nth_via_drop)
  from len have "?L \<noteq> []" by auto
  then have "last ?S = last ?L" by simp
  also have "\<dots> = ?L ! k" using len \<open>?L \<noteq> []\<close> by (simp add: last_conv_nth)
  finally show r: "retrieval_loop e u ixs st = ?L ! k" by (simp add: retrieval_loop_last)
  from r sk s(2)
  show "all_results (retrieval_loop e u ixs st) = merged_results e (ixs ! k) (?S ! k)" by simp
qed

theorem validation_stops_loop_witness:
  "cur_queries (initial_loop_state validator_down ''hi'') \<noteq> [] \<and>
   validation_stops validator_down 1 ''hi''
     (merged_results validator_down 1 (initial_loop_state validator_down ''hi'')) \<and>
   retrieval_loop validator_down ''hi'' [1, 2] (initial_loop_state validator_down ''hi'') =
     retrieval_loop validator_down ''hi'' [1] (initial_loop_state validator_down ''hi'') \<and>
   1 < length (loop_states validator_down ''hi'' [0, 1, 2] (initial_loop_state validator_down ''hi'')) \<and>
   validation_stops validator_down ([0, 1, 2] ! 1) ''hi''
     (merged_results validator_down ([0, 1, 2] ! 1)
        ((initial_loop_state validator_down ''hi'' #
          loop_states validator_down ''hi'' [0, 1, 2] (initial_loop_state validator_down ''hi'')) ! 1)) \<and>
   length (loop_states validator_down ''hi'' [0, 1, 2] (initial_loop_state validator_down ''hi'')) = Suc 1"
proof -
  let ?st = "initial_loop_state validator_down ''hi''"
  have h1: "cur_queries ?st \<noteq> [] \<and>
      validation_stops validator_down 1 ''hi'' (merged_results validator_down 1 ?st)"
    by code_simp
  have h2: "1 < length (loop_states validator_down ''hi'' [0, 1, 2] ?st) \<and>
      validation_stops validator_down ([0, 1, 2] ! 1) ''hi''
        (merged_results validator_down ([0, 1, 2] ! 1)
           ((?st # loop_states validator_down ''hi'' [0, 1, 2] ?st) ! 1))"
    by code_simp
  note t = validation_stops_loop [where st="?st" and e=validator_down and i=1 and u="''hi''"
      and rest="[2]" and k=1 and ixs="[0, 1, 2]"]
  from t h1 have c1: "retrieval_loop validator_down ''hi'' [1, 2] ?st =
      retrieval_loop validator_down ''hi'' [1] ?st"
    by blast
  from t h2 have c2: "length (loop_states validator_down ''hi'' [0, 1, 2] ?st) = Suc 1"
    by blast
  from h1 h2 c1 c2 show ?thesis by blast
qed

section \<open>The chat turn: theorems\<close>

text \<open>
  C6. When the stream raises, the turn yields, after what it had streamed, exactly one
  more fragment, the error fragment with the reason, and returns; the assistant message
  is not appended, so the history holds the user message only (odd length). When the
  stream completes, the history holds the user message and the assistant message (even
  length), the latter being the concatenation of the streamed contents.
\<close>

theorem stream_error_fragment:
  "(snd (astream e (stream_messages e self u)) = Some err \<longrightarrow>
      fst (chat e self u) = streamed_events e self u @ [Yield (''\<newline>[Error: '' @ err @ '']'')] \<and>
      history (snd (chat e self u)) = [HumanMessage u] \<and>
      odd (length (history (snd (chat e self u))))) \<and>
   (snd (astream e (stream_messages e self u)) = None \<longrightarrow>
      history (snd (chat e self u)) =
        [HumanMessage u,
         AIMessage (concat (filter (\<lambda>c. c \<noteq> []) (fst (astream e (stream_messages e self u)))))] \<and>
      even (length (history (snd (chat e self u)))))"
proof (intro conjI impI)
  have h: "history (agent_at_stream e self u) = [HumanMessage u]"
    by (simp add: agent_at_stream_def build_prompt_frame)
  assume a: "snd (astream e (stream_messages e self u)) = Some err"
  then show "fst (chat e self u) = streamed_events e self u @ [Yield (''\<newline>[Error: '' @ err @ '']'')]"
    by (simp add: chat_unfold)
  from a h show hist: "history (snd (chat e self u)) = [HumanMessage u]"
    by (simp add: chat_unfold)
  then show "odd (length (history (snd (chat e self u))))" by simp
next
  assume a: "snd (astream e (stream_messages e self u)) = None"
  then show hist: "history (snd (chat e self u)) =
        [HumanMessage u,
         AIMessage (concat (filter (\<lambda>c. c \<noteq> []) (fst (astream e (stream_messages e self u)))))]"
    by (simp add: chat_unfold)
  then show "even (length (history (snd (chat e self u))))" by simp
qed

theorem stream_error_fragment_witness:
  "snd (astream stream_breaks (stream_messages stream_breaks offline_agent ''hi'')) = Some ''boom'' \<and>
   fst (chat stream_breaks offline_agent ''hi'') =
     streamed_events stream_breaks offline_agent ''hi'' @ [Yield (''\<newline>[Error: '' @ ''boom'' @ '']'')] \<and>
   history (snd (chat stream_breaks offline_agent ''hi'')) = [HumanMessage ''hi''] \<and>
   snd (astream never_satisfied (stream_messages never_satisfied offline_agent ''hi'')) = None \<and>
   even (length (history (snd (chat never_satisfied offline_agent ''hi''))))"
proof -
  have h1: "snd (astream stream_breaks (stream_messages stream_breaks offline_agent ''hi'')) = Some ''boom''"
    by (simp add: stream_breaks_def never_satisfied_def)
  have h2: "snd (astream never_satisfied (stream_messages never_satisfied offline_agent ''hi'')) = None"
    by (simp add: never_satisfied_def)
  from stream_error_fragment [of stream_breaks offline_agent "''hi''" "''boom''"] h1
  have c1: "fst (chat stream_breaks offline_agent ''hi'') =
     streamed_events stream_breaks offline_agent ''hi'' @ [Yield (''\<newline>[Error: '' @ ''boom'' @ '']'')] \<and>
   history (snd (chat stream_breaks offline_agent ''hi'')) = [HumanMessage ''hi'']"
    by simp
  from stream_error_fragment [of never_satisfied offline_agent "''hi''" "''boom''"] h2
  have c2: "even (length (history (snd (chat never_satisfied offline_agent ''hi''))))"
    by simp
  from h1 h2 c1 c2 show ?thesis by simp
qed

lemma search_phase_offline:
  "\<not> use_web_search self \<Longrightarrow>
   search_phase e self u = ([Yield ''[STAGE]Generating response (offline)...\<newline>''], [], [])"
  by (simp add: search_phase_def)

text \<open>
  C7. A turn with web search off makes no search-related call (no query extraction, no
  search dispatch, no validation). Its stream is called with the prompt alone, and when
  the stream completes the turn yields the offline stage line, the streamed contents and
  then the offline advisory, once, as its last fragment.
\<close>

theorem offline_turn:
  "\<not> use_web_search self \<longrightarrow>
     (\<forall>ev \<in> set (fst (chat e self u)). \<not> is_search_call ev) \<and>
     stream_messages e self u =
       [SystemMessage (fst (build_prompt e (self\<lparr>history := [HumanMessage u]\<rparr>) u)), HumanMessage u] \<and>
     (snd (astream e (stream_messages e self u)) = None \<longrightarrow>
        fst (chat e self u) =
          [Yield ''[STAGE]Generating response (offline)...\<newline>'', CallStream (stream_messages e self u)] @
          map Yield (filter (\<lambda>c. c \<noteq> []) (fst (astream e (stream_messages e self u)))) @
          [Yield (offline_notice e)])"
proof (intro impI conjI)
  assume off: "\<not> use_web_search self"
  note sp = search_phase_offline [OF off, of e u]
  show "\<forall>ev \<in> set (fst (chat e self u)). \<not> is_search_call ev"
    using off by (auto simp: chat_unfold streamed_events_def sp trailer_def split: option.split)
  show "stream_messages e self u =
       [SystemMessage (fst (build_prompt e (self\<lparr>history := [HumanMessage u]\<rparr>) u)), HumanMessage u]"
    by (simp add: stream_messages_eq sp)
  assume "snd (astream e (stream_messages e self u)) = None"
  with off show "fst (chat e self u) =
          [Yield ''[STAGE]Generating response (offline)...\<newline>'', CallStream (stream_messages e self u)] @
          map Yield (filter (\<lambda>c. c \<noteq> []) (fst (astream e (stream_messages e self u)))) @
          [Yield (offline_notice e)]"
    by (simp add: chat_unfold streamed_events_def sp trailer_def)
qed

theorem offline_turn_witness:
  "\<not> use_web_search offline_agent \<and>
   snd (astream never_satisfied (stream_messages never_satisfied offline_agent ''hi'')) = None \<and>
   filter is_search_call (fst (chat never_satisfied offline_agent ''hi'')) = [] \<and>
   fst (chat never_satisfied offline_agent ''hi'') =
     [Yield ''[STAGE]Generating response (offline)...\<newline>'',
      CallStream [SystemMessage ''N'', HumanMessage ''hi''],
      Yield ''Hel'', Yield ''lo'',
      Yield ''\<newline>\<newline>---\<newline>! *Response generated without web search. Information may not be current.*'']"
proof -
  have h1: "\<not> use_web_search offline_agent" by (simp add: offline_agent_def online_agent_def)
  have h2: "snd (astream never_satisfied (stream_messages never_satisfied offline_agent ''hi'')) = None"
    by (simp add: never_satisfied_def)
  have h3: "stream_messages never_satisfied offline_agent ''hi'' = [SystemMessage ''N'', HumanMessage ''hi'']"
    by code_simp
  have h4: "fst (astream never_satisfied [SystemMessage ''N'', HumanMessage ''hi'']) = [''Hel'', [], ''lo'']"
    by (simp add: never_satisfied_def)
  have h5: "offline_notice never_satisfied =
      ''\<newline>\<newline>---\<newline>! *Response generated without web search. Information may not be current.*''"
    by code_simp
  from offline_turn [of offline_agent never_satisfied "''hi''"] h1 h2
  have c: "(\<forall>ev \<in> set (fst (chat never_satisfied offline_agent ''hi'')). \<not> is_search_call ev) \<and>
     fst (chat never_satisfied offline_agent ''hi'') =
          [Yield ''[STAGE]Generating response (offline)...\<newline>'',
           CallStream (stream_messages never_satisfied offline_agent ''hi'')] @
          map Yield (filter (\<lambda>c. c \<noteq> []) (fst (astream never_satisfied (stream_messages never_satisfied offline_agent ''hi'')))) @
          [Yield (offline_notice never_satisfied)]"
    by simp
  from c have c': "filter is_search_call (fst (chat never_satisfied offline_agent ''hi'')) = []"
    by (simp only: filter_empty_conv) simp
  from h1 h2 c c' show ?thesis by (simp add: h3 h4 h5)
qed

section \<open>Source URLs and references\<close>

lemma split_from_nonempty: "split_from sep piece s \<noteq> []"
  by (induction sep piece s rule: split_from.induct) auto

lemma contains_Nil: "contains sep [] \<longleftrightarrow> sep = []"
  by simp

lemma contains_append_left: "contains sep s \<Longrightarrow> contains sep (pre @ s)"
  by (induction pre) auto

text \<open>The last piece of a split: the text after the last separator found.\<close>

lemma split_from_last:
  assumes "sep \<noteq> []"
  shows "(contains sep s \<longrightarrow>
            (\<exists>pre. s = pre @ sep @ last (split_from sep piece s)) \<and>
            \<not> contains sep (last (split_from sep piece s))) \<and>
         (\<not> contains sep s \<longrightarrow> last (split_from sep piece s) = piece @ s)"
  using assms
proof (induction sep piece s rule: split_from.induct)
  case (1 sep piece)
  then show ?case by simp
next
  case (2 sep piece c cs)
  show ?case
  proof (cases "prefix sep (c # cs)")
    case True
    let ?rest = "drop (length sep) (c # cs)"
    from True have s: "c # cs = sep @ ?rest" by (metis append_eq_conv_conj prefixE)
    from True 2 have sp: "split_from sep piece (c # cs) = piece # split_from sep [] ?rest"
      by simp
    then have l: "last (split_from sep piece (c # cs)) = last (split_from sep [] ?rest)"
      by (simp add: split_from_nonempty)
    from True have c: "contains sep (c # cs)" by simp
    from 2(1) True 2(3)
    have ih: "(contains sep ?rest \<longrightarrow>
            (\<exists>pre. ?rest = pre @ sep @ last (split_from sep [] ?rest)) \<and>
            \<not> contains sep (last (split_from sep [] ?rest))) \<and>
         (\<not> contains sep ?rest \<longrightarrow> last (split_from sep [] ?rest) = [] @ ?rest)"
      by simp
    show ?thesis
    proof (cases "contains sep ?rest")
      case True
      with ih obtain pre where "?rest = pre @ sep @ last (split_from sep [] ?rest)"
        and n: "\<not> contains sep (last (split_from sep [] ?rest))" by blast
      with s have "c # cs = (sep @ pre) @ sep @ last (split_from sep [] ?rest)" by simp
      with n c l show ?thesis by metis
    next
      case False
      with ih have r: "last (split_from sep [] ?rest) = ?rest" by simp
      with s have "c # cs = [] @ sep @ last (split_from sep [] ?rest)" by simp
      with False r c l show ?thesis by metis
    qed
  next
    case False
    with 2 have sp: "split_from sep piece (c # cs) = split_from sep (piece @ [c]) cs" by simp
    from False have c: "contains sep (c # cs) \<longleftrightarrow> contains sep cs" by simp
    from 2(2) False 2(3)
    have ih: "(contains sep cs \<longrightarrow>
            (\<exists>pre. cs = pre @ sep @ last (split_from sep (piece @ [c]) cs)) \<and>
            \<not> contains sep (last (split_from sep (piece @ [c]) cs))) \<and>
         (\<not> contains sep cs \<longrightarrow> last (split_from sep (piece @ [c]) cs) = (piece @ [c]) @ cs)"
      by simp
    show ?thesis
    proof (cases "contains sep cs")
      case True
      with ih obtain pre where "cs = pre @ sep @ last (split_from sep (piece @ [c]) cs)"
        and n: "\<not> contains sep (last (split_from sep (piece @ [c]) cs))" by blast
      then have "c # cs = (c # pre) @ sep @ last (split_from sep (piece @ [c]) cs)" by simp
      with n c True sp show ?thesis by metis
    next
      case False
      with ih c sp show ?thesis by simp
    qed
  qed
qed

lemma split_last_marker:
  assumes "contains ''Source: '' line"
  shows "(\<exists>pre. line = pre @ ''Source: '' @ last (split line ''Source: '')) \<and>
         \<not> contains ''Source: '' (last (split line ''Source: ''))"
proof -
  have ne: "''Source: '' \<noteq> []" by simp
  from split_from_last [OF ne, of line "[]"]
  have "contains ''Source: '' line \<longrightarrow>
      (\<exists>pre. line = pre @ ''Source: '' @ last (split_from ''Source: '' [] line)) \<and>
      \<not> contains ''Source: '' (last (split_from ''Source: '' [] line))"
    by (rule conjunct1)
  from mp [OF this assms] show ?thesis unfolding split_def .
qed

lemma collect_line_eq: "collect_line acc line = acc @ source_of_line line"
  by (simp add: collect_line_def source_of_line_def Let_def)

lemma foldl_collect_line: "foldl collect_line acc ls = acc @ concat (map source_of_line ls)"
  by (induction ls arbitrary: acc) (simp_all add: collect_line_eq)

lemma extract_sources_from:
  "foldl (\<lambda>search_sources (q, r). foldl collect_line search_sources (split r ''\<newline>'')) acc results =
   acc @ concat (map (\<lambda>(q, r). concat (map source_of_line (split r ''\<newline>''))) results)"
  by (induction results arbitrary: acc) (simp_all add: foldl_collect_line split_beta)

lemma extract_sources_eq:
  "extract_sources results =
     concat (map (\<lambda>(q, r). concat (map source_of_line (split r ''\<newline>''))) results)"
  unfolding extract_sources_def by (simp only: extract_sources_from append_Nil)

lemma reference_lines_nth:
  "length (reference_lines srcs) = min 5 (length srcs)"
  "n < min 5 (length srcs) \<Longrightarrow>
     reference_lines srcs ! n = ''['' @ str_nat (n + 1) @ '']: '' @ srcs ! n @ ''\<newline>''"
  by (simp_all add: reference_lines_def nth_enumerate_eq)

lemma search_phase_sources:
  "snd (snd (search_phase e self u)) =
     (if use_web_search self then extract_sources (all_results (retrieve e u)) else [])"
  by (simp add: search_phase_def Let_def extract_sources_def)

text \<open>
  C5 (amended). The source URLs are, in discovery order (the results in the order of the
  map, the lines of each result from top to bottom), for every line that contains the
  marker \<open>Source: \<close> the stripped text after the last marker of the line (no marker
  begins later in the line), provided that text is not empty and starts with \<open>http\<close>. When web search is on, at least one source
  URL was collected and the stream completes, the turn ends with the References header
  and one line for each of the first \<open>min 5 count\<close> URLs, numbered from 1, in that
  order.
\<close>

theorem source_urls_and_references:
  "extract_sources results =
     concat (map (\<lambda>(q, r). concat (map source_of_line (split r ''\<newline>''))) results) \<and>
   (url \<in> set (source_of_line line) \<longrightarrow>
      source_of_line line = [url] \<and> url \<noteq> [] \<and> startswith url ''http'' \<and>
      (\<exists>pre rest. line = pre @ ''Source: '' @ rest \<and>
         \<not> contains ''Source: '' (tl (''Source: '' @ rest)) \<and> url = strip rest)) \<and>
   (use_web_search self \<and> snd (astream e (stream_messages e self u)) = None \<and>
    extract_sources (all_results (retrieve e u)) \<noteq> [] \<longrightarrow>
      fst (chat e self u) =
        streamed_events e self u @
        Yield ''\<newline>\<newline>---\<newline>**References:**\<newline>'' #
        map Yield (reference_lines (extract_sources (all_results (retrieve e u)))) \<and>
      length (reference_lines (extract_sources (all_results (retrieve e u)))) =
        min 5 (length (extract_sources (all_results (retrieve e u)))) \<and>
      (\<forall>n < min 5 (length (extract_sources (all_results (retrieve e u)))).
         reference_lines (extract_sources (all_results (retrieve e u))) ! n =
           ''['' @ str_nat (n + 1) @ '']: '' @ extract_sources (all_results (retrieve e u)) ! n @ ''\<newline>''))"
proof (intro conjI impI allI)
  show "extract_sources results =
     concat (map (\<lambda>(q, r). concat (map source_of_line (split r ''\<newline>''))) results)"
    by (rule extract_sources_eq)
next
  assume a: "url \<in> set (source_of_line line)"
  let ?rest = "last (split line ''Source: '')"
  from a have c: "contains ''Source: '' line" and u: "url = strip ?rest"
    and n: "url \<noteq> []" and h: "startswith url ''http''"
    by (auto simp: source_of_line_def Let_def split: if_splits)
  from c u n h show "source_of_line line = [url]" by (simp add: source_of_line_def Let_def)
  from n show "url \<noteq> []" .
  from h show "startswith url ''http''" .
  from split_last_marker [OF c] have "\<exists>pre. line = pre @ ''Source: '' @ ?rest"
    and "\<not> contains ''Source: '' ?rest" by simp_all
  moreover have "contains ''Source: '' (tl (''Source: '' @ ?rest)) = contains ''Source: '' ?rest"
    by simp
  ultimately show "\<exists>pre rest. line = pre @ ''Source: '' @ rest \<and>
         \<not> contains ''Source: '' (tl (''Source: '' @ rest)) \<and> url = strip rest"
    using u by blast
next
  assume a: "use_web_search self \<and> snd (astream e (stream_messages e self u)) = None \<and>
    extract_sources (all_results (retrieve e u)) \<noteq> []"
  then have "snd (snd (search_phase e self u)) = extract_sources (all_results (retrieve e u))"
    by (simp add: search_phase_sources)
  with a show "fst (chat e self u) =
        streamed_events e self u @
        Yield ''\<newline>\<newline>---\<newline>**References:**\<newline>'' #
        map Yield (reference_lines (extract_sources (all_results (retrieve e u))))"
    by (simp add: chat_unfold trailer_def)
next
  show "length (reference_lines (extract_sources (all_results (retrieve e u)))) =
        min 5 (length (extract_sources (all_results (retrieve e u))))"
    by (rule reference_lines_nth)
next
  fix n
  assume "n < min 5 (length (extract_sources (all_results (retrieve e u))))"
  then show "reference_lines (extract_sources (all_results (retrieve e u))) ! n =
           ''['' @ str_nat (n + 1) @ '']: '' @ extract_sources (all_results (retrieve e u)) ! n @ ''\<newline>''"
    by (rule reference_lines_nth)
qed

theorem source_urls_and_references_witness:
  "''https://a.example/1'' \<in> set (source_of_line ''  Source: https://a.example/1'') \<and>
   use_web_search online_agent \<and>
   snd (astream with_sources (stream_messages with_sources online_agent ''hi'')) = None \<and>
   extract_sources (all_results (retrieve with_sources ''hi'')) \<noteq> [] \<and>
   source_of_line ''  Source: https://a.example/1'' = [''https://a.example/1''] \<and>
   fst (chat with_sources online_agent ''hi'') =
     streamed_events with_sources online_agent ''hi'' @
     Yield ''\<newline>\<newline>---\<newline>**References:**\<newline>'' #
     map Yield (reference_lines (extract_sources (all_results (retrieve with_sources ''hi'')))) \<and>
   reference_lines (extract_sources (all_results (retrieve with_sources ''hi''))) =
     [''[1]: https://a.example/1\<newline>'']"
proof -
  have h1: "''https://a.example/1'' \<in> set (source_of_line ''  Source: https://a.example/1'')"
    by code_simp
  have h2: "use_web_search online_agent" by (simp add: online_agent_def)
  have h3: "snd (astream with_sources (stream_messages with_sources online_agent ''hi'')) = None"
    by (simp add: with_sources_def never_satisfied_def)
  have h4: "extract_sources (all_results (retrieve with_sources ''hi'')) \<noteq> []" by code_simp
  have h5: "reference_lines (extract_sources (all_results (retrieve with_sources ''hi''))) =
     [''[1]: https://a.example/1\<newline>'']"
    by code_simp
  note t = source_urls_and_references [where url="''https://a.example/1''"
      and line="''  Source: https://a.example/1''" and self=online_agent and e=with_sources
      and u="''hi''"]
  from t h1 have c1: "source_of_line ''  Source: https://a.example/1'' = [''https://a.example/1'']"
    by simp
  from t h2 h3 h4 have c2: "fst (chat with_sources online_agent ''hi'') =
     streamed_events with_sources online_agent ''hi'' @
     Yield ''\<newline>\<newline>---\<newline>**References:**\<newline>'' #
     map Yield (reference_lines (extract_sources (all_results (retrieve with_sources ''hi''))))"
    by simp
  from h1 h2 h3 h4 h5 c1 c2 show ?thesis by simp
qed

text \<open>
  C5 as stated fails: a result line whose \<open>Source: \<close> marker is followed by a URL that
  does not start with \<open>http\<close> gives no source URL.
\<close>

theorem ftp_source_counterexample:
  "all_results (retrieve with_sources ''hi'') =
     [(''q'', ''- A: alpha...\<newline>  Source: https://a.example/1\<newline>- B: beta...\<newline>  Source: ftp://b.example/2'')] \<and>
   extract_sources (all_results (retrieve with_sources ''hi'')) = [''https://a.example/1'']"
  by code_simp

end
